theory Spec2Isabelle
  imports Main "HOL-Library.Sublist"
begin

section \<open>The executor's request surface: data\<close>

text \<open>
  The development follows \<^verbatim>\<open>internal/services/runservice/executor/api.go\<close>: the task
  submission handler, the log handler with its tail-follow loop \<^verbatim>\<open>readLogs\<close>, and the
  archive handler. Bytes are \<^typ>\<open>char\<close> (eight bits); a \<^verbatim>\<open>[]byte\<close> is a \<^typ>\<open>char list\<close>.
\<close>

type_synonym bytes = "char list"

definition nl :: char where
  "nl = CHR 0x0A"

text \<open>
  Errors as values. \<^verbatim>\<open>io.EOF\<close> is the only error the loop treats specially;
  \<^verbatim>\<open>os.IsNotExist\<close> holds of \<open>ErrNotExist\<close> alone; \<open>ErrIO\<close> stands for every other
  failure of an open, read, seek, write or decode.
\<close>

datatype error = EOF | ErrNotExist | ErrIO

definition IsNotExist :: "error \<Rightarrow> bool" where
  "IsNotExist err = (err = ErrNotExist)"

text \<open>
  Modelled from the spec: the package \<^verbatim>\<open>types\<close> (the declaration of
  \<^verbatim>\<open>ExecutorTask\<close>, its step phases and \<^verbatim>\<open>IsFinished\<close>) is not among the sources. The
  spec gives the phase as an enumeration of not-started, running and the finished
  sub-states success, failed and stopped, and \<^verbatim>\<open>IsFinished\<close> as the predicate that
  holds of the finished ones.
\<close>

datatype ExecutorTaskPhase =
  PhaseNotStarted | PhaseRunning | PhaseSuccess | PhaseFailed | PhaseStopped

fun IsFinished :: "ExecutorTaskPhase \<Rightarrow> bool" where
  "IsFinished PhaseNotStarted = False"
| "IsFinished PhaseRunning = False"
| "IsFinished PhaseSuccess = True"
| "IsFinished PhaseFailed = True"
| "IsFinished PhaseStopped = True"

text \<open>
  A running task as the log reader sees it: \<open>Steps rt ! i\<close> is
  \<^verbatim>\<open>rt.et.Status.Steps[i].Phase\<close>, read under the handle's lock. The registry
  \<^verbatim>\<open>runningTasks\<close> is a finite table from task id to handle; \<^verbatim>\<open>get\<close> is \<^const>\<open>map_of\<close>.
\<close>

record runningTask =
  Steps :: "ExecutorTaskPhase list"

type_synonym runningTasks = "(string \<times> runningTask) list"

text \<open>
  The response writer is the sequence of calls a handler makes on it, in order.
  \<open>HttpError msg code\<close> is \<^verbatim>\<open>http.Error(w, msg, code)\<close>.
\<close>

datatype call =
  SetHeader string string
| HttpError string nat
| Write bytes
| Flush

fun writes :: "call list \<Rightarrow> bytes list" where
  "writes [] = []"
| "writes (Write d # cs) = d # writes cs"
| "writes (c # cs) = writes cs"

text \<open>
  How a function ended: it returned (with \<^verbatim>\<open>nil\<close> or an error), it panicked, it is
  blocked on a channel send for ever, or the schedule of the outside world given to
  the model ended while the function was still running.
\<close>

datatype outcome = Returned "error option" | Panicked | Blocked | Unfinished

subsection \<open>The outside world of one log stream\<close>

text \<open>
  The execution engine appends to the log file and changes the registry while the
  reader runs. A \<open>tick\<close> says what the reader meets in one iteration of its loop: the
  bytes appended to the file since the previous iteration, the registry as
  \<^verbatim>\<open>runningTasks.get\<close> and the phase read see it, and whether a read of the file, the
  seek, or the write to the client fails in this iteration. A schedule is a list of
  ticks; every interleaving of appends, phase changes and failures with the
  iterations of the loop is some schedule. The file only grows, so a call of
  \<^verbatim>\<open>ReadBytes\<close> that overlaps an append returns what it would return either before
  or after the append: appends are placed between the calls.
\<close>

record tick =
  appended :: bytes
  registry :: runningTasks
  read_fault :: bool
  seek_fault :: bool
  write_fault :: bool

definition nofault :: "tick \<Rightarrow> bool" where
  "nofault t = (\<not> read_fault t \<and> \<not> seek_fault t \<and> \<not> write_fault t)"

definition quiet :: "tick \<Rightarrow> bool" where
  "quiet t = (appended t = [] \<and> nofault t)"

text \<open>
  The state of the loop of \<^verbatim>\<open>readLogs\<close>: the bytes of the log file on disk, the offset
  of the descriptor \<^verbatim>\<open>f\<close>, the bytes the \<^verbatim>\<open>bufio.Reader\<close> \<^verbatim>\<open>br\<close> has read from \<^verbatim>\<open>f\<close>
  and not yet handed out, the calls made on \<^verbatim>\<open>w\<close> so far, the two flags, and the number
  of times the loop has slept for the poll interval of 500 ms.
\<close>

record loop_state =
  content :: bytes
  pos :: nat
  buf :: bytes
  resp :: "call list"
  stop :: bool
  flushstop :: bool
  sleeps :: nat

section \<open>Reading a line through the buffered reader\<close>

text \<open>
  \<^verbatim>\<open>br.ReadBytes('\n')\<close> of package \<^verbatim>\<open>bufio\<close>, with the default buffer of 4096 bytes.
  It searches the buffered bytes for the delimiter; a full buffer without one is
  moved to the fragments collected so far (\<open>acc\<close>); otherwise it reads from the file
  at the descriptor's offset into the free space of the buffer. A read at the end
  of the file returns \<^verbatim>\<open>io.EOF\<close>: then everything collected is returned with the error
  and the buffer is left empty.
\<close>

definition bufio_size :: nat where
  "bufio_size = 4096"

function ReadBytes_from :: "bool \<Rightarrow> bytes \<Rightarrow> loop_state \<Rightarrow> bytes \<times> error option \<times> loop_state" where
  "ReadBytes_from fault acc st =
     (if nl \<in> set (buf st) then
        (acc @ takeWhile (\<lambda>c. c \<noteq> nl) (buf st) @ [nl], None,
         st\<lparr>buf := tl (dropWhile (\<lambda>c. c \<noteq> nl) (buf st))\<rparr>)
      else if bufio_size \<le> length (buf st) then
        ReadBytes_from fault (acc @ buf st) (st\<lparr>buf := []\<rparr>)
      else if fault then (acc @ buf st, Some ErrIO, st\<lparr>buf := []\<rparr>)
      else if length (content st) \<le> pos st then (acc @ buf st, Some EOF, st\<lparr>buf := []\<rparr>)
      else
        ReadBytes_from fault acc
          (st\<lparr>buf := buf st @ take (bufio_size - length (buf st)) (drop (pos st) (content st)),
              pos := pos st + min (bufio_size - length (buf st)) (length (content st) - pos st)\<rparr>))"
  by pat_completeness auto
termination
  by (relation "measure (\<lambda>(fault, acc, st).
        2 * (length (content st) - pos st) + (if bufio_size \<le> length (buf st) then 1 else 0))")
     (auto simp: bufio_size_def)

declare ReadBytes_from.simps [simp del]

definition ReadBytes :: "bool \<Rightarrow> loop_state \<Rightarrow> bytes \<times> error option \<times> loop_state" where
  "ReadBytes fault st = ReadBytes_from fault [] st"

section \<open>The tail-follow loop of readLogs\<close>

text \<open>
  \<^verbatim>\<open>w.Write(data)\<close> followed by \<^verbatim>\<open>flusher.Flush()\<close> when the writer is a flusher. A failed
  write returns its error from \<^verbatim>\<open>readLogs\<close>.
\<close>

definition write_flush ::
  "bool \<Rightarrow> tick \<Rightarrow> bytes \<Rightarrow> loop_state \<Rightarrow> outcome option \<times> loop_state" where
  "write_flush flusher t data st =
     (if write_fault t then (Some (Returned (Some ErrIO)), st)
      else (None, st\<lparr>resp := resp st @ Write data # (if flusher then [Flush] else [])\<rparr>))"

text \<open>
  One iteration of the \<^verbatim>\<open>for\<close> loop after the test of \<^verbatim>\<open>stop\<close>. The result \<open>None\<close> is
  the next iteration (\<^verbatim>\<open>continue\<close>, or the end of the loop body). The index
  \<^verbatim>\<open>Steps[step]\<close> panics outside \<open>0 \<le> step < len(Steps)\<close>.
\<close>

definition readLogs_body ::
  "bool \<Rightarrow> string \<Rightarrow> int \<Rightarrow> bool \<Rightarrow> tick \<Rightarrow> loop_state \<Rightarrow> outcome option \<times> loop_state" where
  "readLogs_body flusher taskID step follow t st0 =
     (case ReadBytes (read_fault t) (st0\<lparr>content := content st0 @ appended t\<rparr>) of
        (data, None, st) \<Rightarrow> write_flush flusher t data st
      | (data, Some err, st) \<Rightarrow>
          if err \<noteq> EOF then (Some (Returned (Some err)), st)
          else if \<not> flushstop st \<and> follow then
            (if seek_fault t \<or> pos st < length data then (Some (Returned (Some ErrIO)), st)
             else
               (case map_of (registry t) taskID of
                  None \<Rightarrow>
                    (None, st\<lparr>pos := pos st - length data, flushstop := True,
                              sleeps := Suc (sleeps st)\<rparr>)
                | Some rt \<Rightarrow>
                    if step < 0 \<or> int (length (Steps rt)) \<le> step then
                      (Some Panicked, st\<lparr>pos := pos st - length data\<rparr>)
                    else if IsFinished (Steps rt ! nat step) then
                      (None, st\<lparr>pos := pos st - length data, flushstop := True,
                                sleeps := Suc (sleeps st)\<rparr>)
                    else
                      (None, st\<lparr>pos := pos st - length data, sleeps := Suc (sleeps st)\<rparr>)))
          else write_flush flusher t data (st\<lparr>stop := True\<rparr>))"

text \<open>
  The loop. Each iteration that passes the test of \<^verbatim>\<open>stop\<close> meets the next tick of the
  schedule; when the schedule has ended and the loop has not returned, the outcome
  is \<open>Unfinished\<close>.
\<close>

fun readLogs_loop ::
  "bool \<Rightarrow> string \<Rightarrow> int \<Rightarrow> bool \<Rightarrow> tick list \<Rightarrow> loop_state \<Rightarrow> outcome \<times> loop_state" where
  "readLogs_loop flusher taskID step follow [] st =
     (if stop st then (Returned None, st) else (Unfinished, st))"
| "readLogs_loop flusher taskID step follow (t # ts) st =
     (if stop st then (Returned None, st)
      else
        (case readLogs_body flusher taskID step follow t st of
           (None, st') \<Rightarrow> readLogs_loop flusher taskID step follow ts st'
         | (Some r, st') \<Rightarrow> (r, st')))"

section \<open>The handlers\<close>

text \<open>
  What a handler did: the calls on the response writer, the paths given to
  \<^verbatim>\<open>os.Open\<close> (every read and seek of the file system goes through a file opened
  here), the errors written to the log, the number of poll intervals slept, and how
  it ended.
\<close>

record effects =
  calls :: "call list"
  opened :: "string list"
  logged :: "error list"
  polls :: nat
  outcome :: outcome

text \<open>
  The parts of \<^verbatim>\<open>Executor\<close> the handlers use. Its declaration is not among the
  sources, so the two path functions are parameters.
\<close>

record Executor =
  logPath :: "string \<Rightarrow> int \<Rightarrow> string"
  archivePath :: "string \<Rightarrow> int \<Rightarrow> string"

text \<open>The file system at \<^verbatim>\<open>os.Open\<close>: the error of the open, or the bytes of the file.\<close>

type_synonym filesystem = "string \<Rightarrow> error + bytes"

definition stream_headers :: "call list" where
  "stream_headers =
     [SetHeader ''Content-Type'' ''text/event-stream'',
      SetHeader ''Cache-Control'' ''no-cache'',
      SetHeader ''Connection'' ''keep-alive'']"

definition start :: "bytes \<Rightarrow> call list \<Rightarrow> loop_state" where
  "start c w =
     \<lparr>content = c, pos = 0, buf = [], resp = w, stop = False, flushstop = False, sleeps = 0\<rparr>"

definition readLogs ::
  "filesystem \<Rightarrow> tick list \<Rightarrow> bool \<Rightarrow> string \<Rightarrow> int \<Rightarrow> string \<Rightarrow> call list \<Rightarrow> bool \<Rightarrow> effects" where
  "readLogs fs sched flusher taskID step path w follow =
     (case fs path of
        Inl err \<Rightarrow>
          \<lparr>calls = w @ [HttpError [] (if IsNotExist err then 404 else 500)],
           opened = [path], logged = [], polls = 0, outcome = Returned (Some err)\<rparr>
      | Inr c \<Rightarrow>
          (case readLogs_loop flusher taskID step follow sched (start c (w @ stream_headers)) of
             (r, st) \<Rightarrow>
               \<lparr>calls = resp st, opened = [path], logged = [], polls = sleeps st,
                outcome = r\<rparr>))"

definition readTaskLogs ::
  "Executor \<Rightarrow> filesystem \<Rightarrow> tick list \<Rightarrow> bool \<Rightarrow> string \<Rightarrow> int \<Rightarrow> call list \<Rightarrow> bool \<Rightarrow> effects" where
  "readTaskLogs e fs sched flusher taskID step w follow =
     readLogs fs sched flusher taskID step (logPath e taskID step) w follow"

subsection \<open>Query parameters\<close>

text \<open>
  \<^verbatim>\<open>r.URL.Query()\<close> is a table from a key to its values; \<^verbatim>\<open>Get\<close> is the first value of
  the key, or the empty string. \<^verbatim>\<open>strconv.Atoi\<close> accepts an optional sign followed by
  one or more decimal digits whose value fits the 64-bit \<^verbatim>\<open>int\<close>.
\<close>

type_synonym Values = "(string \<times> string list) list"

definition Get :: "Values \<Rightarrow> string \<Rightarrow> string" where
  "Get q k = (case map_of q k of None \<Rightarrow> [] | Some [] \<Rightarrow> [] | Some (v # vs) \<Rightarrow> v)"

fun parse_digits :: "nat \<Rightarrow> string \<Rightarrow> nat option" where
  "parse_digits n [] = Some n"
| "parse_digits n (c # cs) =
     (if 48 \<le> (of_char c :: nat) \<and> (of_char c :: nat) \<le> 57
      then parse_digits (n * 10 + (of_char c - 48)) cs else None)"

definition Atoi :: "string \<Rightarrow> int option" where
  "Atoi s =
     (case s of
        [] \<Rightarrow> None
      | c # cs \<Rightarrow>
          (let ds = (if c = CHR ''-'' \<or> c = CHR ''+'' then cs else s) in
           if ds = [] then None
           else
             (case parse_digits 0 ds of
                None \<Rightarrow> None
              | Some n \<Rightarrow>
                  (let v = (if c = CHR ''-'' then - int n else int n) in
                   if - (2 ^ 63) \<le> v \<and> v < 2 ^ 63 then Some v else None))))"

record request =
  query :: Values

definition bad_request :: "call list \<Rightarrow> effects" where
  "bad_request w =
     \<lparr>calls = w @ [HttpError [] 400], opened = [], logged = [], polls = 0,
      outcome = Returned None\<rparr>"

subsection \<open>The log handler\<close>

definition logsHandler_ServeHTTP ::
  "Executor \<Rightarrow> filesystem \<Rightarrow> tick list \<Rightarrow> bool \<Rightarrow> request \<Rightarrow> effects" where
  "logsHandler_ServeHTTP e fs sched flusher r =
     (let taskID = Get (query r) ''taskid'' in
      if taskID = [] then bad_request stream_headers
      else
        (let s = Get (query r) ''step'' in
         if s = [] then bad_request stream_headers
         else
           (case Atoi s of
              None \<Rightarrow> bad_request stream_headers
            | Some step \<Rightarrow>
                (let follow = (map_of (query r) ''follow'' \<noteq> None);
                     res = readTaskLogs e fs sched flusher taskID step stream_headers follow
                 in case outcome res of
                      Returned (Some err) \<Rightarrow> res\<lparr>logged := [err], outcome := Returned None\<rparr>
                    | _ \<Rightarrow> res))))"

subsection \<open>The archive handler\<close>

text \<open>
  \<^verbatim>\<open>io.Copy(w, br)\<close> copies the file to the writer until the end of the file or the
  first error. The bytes that reach the writer are recorded as one \<open>Write\<close> (none when
  no byte is copied). The fault \<open>Some k\<close> is a read of the file or a write to the
  client that fails when \<open>k\<close> bytes have been copied.
\<close>

definition io_Copy :: "nat option \<Rightarrow> bytes \<Rightarrow> call list \<Rightarrow> error option \<times> call list" where
  "io_Copy fault c w =
     (case fault of
        None \<Rightarrow> (None, if c = [] then w else w @ [Write c])
      | Some k \<Rightarrow> (Some ErrIO, if take k c = [] then w else w @ [Write (take k c)]))"

definition readArchive ::
  "Executor \<Rightarrow> filesystem \<Rightarrow> nat option \<Rightarrow> string \<Rightarrow> int \<Rightarrow> call list \<Rightarrow> effects" where
  "readArchive e fs copy_fault taskID step w =
     (case fs (archivePath e taskID step) of
        Inl err \<Rightarrow>
          \<lparr>calls = w, opened = [archivePath e taskID step], logged = [], polls = 0,
           outcome = Returned (Some err)\<rparr>
      | Inr c \<Rightarrow>
          (case io_Copy copy_fault c w of
             (err, w') \<Rightarrow>
               \<lparr>calls = w', opened = [archivePath e taskID step], logged = [], polls = 0,
                outcome = Returned err\<rparr>))"

definition archivesHandler_ServeHTTP ::
  "Executor \<Rightarrow> filesystem \<Rightarrow> nat option \<Rightarrow> request \<Rightarrow> effects" where
  "archivesHandler_ServeHTTP e fs copy_fault r =
     (let taskID = Get (query r) ''taskid'' in
      if taskID = [] then bad_request []
      else
        (let s = Get (query r) ''step'' in
         if s = [] then bad_request []
         else
           (case Atoi s of
              None \<Rightarrow> bad_request []
            | Some step \<Rightarrow>
                (let res = readArchive e fs copy_fault taskID step
                             [SetHeader ''Cache-Control'' ''no-cache'']
                 in case outcome res of
                      Returned (Some err) \<Rightarrow>
                        res\<lparr>calls := calls res @ [HttpError [] (if IsNotExist err then 404 else 500)],
                            outcome := Returned None\<rparr>
                    | _ \<Rightarrow> res))))"

subsection \<open>The task submission handler\<close>

text \<open>
  \<^verbatim>\<open>json.NewDecoder(r.Body).Decode(&et)\<close> is the parameter \<open>Decode\<close>; the type of tasks
  is left open. The send \<^verbatim>\<open>h.c <- et\<close> returns when the channel takes the value; when
  it never does (\<open>accepts\<close> is false) the handler stays blocked in the send.
\<close>

record 'task submission =
  reply :: "call list"
  queued :: "'task list"
  ended :: outcome

definition taskSubmissionHandler_ServeHTTP ::
  "(bytes \<Rightarrow> error + 'task) \<Rightarrow> bool \<Rightarrow> bytes \<Rightarrow> 'task submission" where
  "taskSubmissionHandler_ServeHTTP Decode accepts body =
     (case Decode body of
        Inl err \<Rightarrow> \<lparr>reply = [HttpError [] 500], queued = [], ended = Returned None\<rparr>
      | Inr et \<Rightarrow>
          if accepts then \<lparr>reply = [], queued = [et], ended = Returned None\<rparr>
          else \<lparr>reply = [], queued = [], ended = Blocked\<rparr>)"

section \<open>Vocabulary of the properties\<close>

text \<open>
  The bytes the client has received are the data of the \<^verbatim>\<open>Write\<close> calls, in order; a
  delivered unit is the data of one call. \<open>emit\<close> is the calls that deliver a list of
  units, each followed by its flush.
\<close>

definition delivered :: "loop_state \<Rightarrow> bytes" where
  "delivered st = concat (writes (resp st))"

definition undelivered :: "loop_state \<Rightarrow> bytes" where
  "undelivered st = drop (length (delivered st)) (content st)"

fun emit :: "bool \<Rightarrow> bytes list \<Rightarrow> call list" where
  "emit flusher [] = []"
| "emit flusher (u # us) = Write u # (if flusher then [Flush] else []) @ emit flusher us"

text \<open>
  A complete line ends with the delimiter and holds no other one. \<open>units xs\<close> cuts \<open>xs\<close>
  after each delimiter: the complete lines of \<open>xs\<close>, then what follows the last
  delimiter (the partial line, empty when \<open>xs\<close> ends with a delimiter).
\<close>

definition complete_line :: "bytes \<Rightarrow> bool" where
  "complete_line l = (l \<noteq> [] \<and> last l = nl \<and> nl \<notin> set (butlast l))"

definition first_line :: "bytes \<Rightarrow> bytes" where
  "first_line xs = takeWhile (\<lambda>c. c \<noteq> nl) xs @ [nl]"

definition after_line :: "bytes \<Rightarrow> bytes" where
  "after_line xs = tl (dropWhile (\<lambda>c. c \<noteq> nl) xs)"

function units :: "bytes \<Rightarrow> bytes list" where
  "units xs = (if nl \<in> set xs then first_line xs # units (after_line xs) else [xs])"
  by pat_completeness auto
termination
proof (relation "measure length")
  fix xs :: bytes
  assume "nl \<in> set xs"
  then have "dropWhile (\<lambda>c. c \<noteq> nl) xs \<noteq> []" by simp
  then have "length (tl (dropWhile (\<lambda>c. c \<noteq> nl) xs)) < length (dropWhile (\<lambda>c. c \<noteq> nl) xs)"
    by simp
  also have "\<dots> \<le> length xs" by (rule length_dropWhile_le)
  finally show "(after_line xs, xs) \<in> measure length" by (simp add: after_line_def)
qed simp

declare units.simps [simp del]

text \<open>
  The invariant of the loop head: the bytes of the file before the descriptor's
  offset are the delivered bytes followed by the buffered ones, so the next byte
  the reader hands out is the first undelivered byte of the file. \<open>lines_ok\<close>: every
  delivered unit is a complete line, but for the last one once \<^verbatim>\<open>stop\<close> is set.
\<close>

definition invar :: "loop_state \<Rightarrow> bool" where
  "invar st = (pos st \<le> length (content st) \<and> take (pos st) (content st) = delivered st @ buf st)"

definition lines_ok :: "loop_state \<Rightarrow> bool" where
  "lines_ok st =
     (\<forall>u \<in> set (if stop st then butlast (writes (resp st)) else writes (resp st)). complete_line u)"

text \<open>
  What the phase check of the loop finds in a registry: the step counts as finished
  when the task has no handle or its phase is a finished one; it is running when
  the handle is there, the index is in range and the phase is not finished; the
  index panics when the handle is there and \<open>step\<close> is not an index of its steps.
\<close>

definition step_finished :: "runningTasks \<Rightarrow> string \<Rightarrow> int \<Rightarrow> bool" where
  "step_finished reg taskID step =
     (case map_of reg taskID of
        None \<Rightarrow> True
      | Some rt \<Rightarrow> 0 \<le> step \<and> step < int (length (Steps rt)) \<and> IsFinished (Steps rt ! nat step))"

definition step_running :: "runningTasks \<Rightarrow> string \<Rightarrow> int \<Rightarrow> bool" where
  "step_running reg taskID step =
     (case map_of reg taskID of
        None \<Rightarrow> False
      | Some rt \<Rightarrow> 0 \<le> step \<and> step < int (length (Steps rt)) \<and> \<not> IsFinished (Steps rt ! nat step))"

definition step_panics :: "runningTasks \<Rightarrow> string \<Rightarrow> int \<Rightarrow> bool" where
  "step_panics reg taskID step =
     (case map_of reg taskID of
        None \<Rightarrow> False
      | Some rt \<Rightarrow> step < 0 \<or> int (length (Steps rt)) \<le> step)"

text \<open>A tick with its registry left out: what a read that never polls can depend on.\<close>

definition forget_registry :: "tick \<Rightarrow> tick" where
  "forget_registry t = t\<lparr>registry := []\<rparr>"

subsection \<open>Concrete inputs\<close>

text \<open>
  A tick without failures, with a given registry, without or with appended bytes; an
  executor whose paths name the task and the step's sign; a file system holding one
  file; a decoder that accepts the bodies starting with an opening brace; the
  registry of a task \<^verbatim>\<open>t\<close> whose only step is running, or has succeeded; a state of
  the loop after one delivered line; a request for task \<^verbatim>\<open>t\<close> in follow mode.
\<close>

definition tick_of :: "runningTasks \<Rightarrow> tick" where
  "tick_of reg =
     \<lparr>appended = [], registry = reg, read_fault = False, seek_fault = False,
      write_fault = False\<rparr>"

definition tick_append :: "bytes \<Rightarrow> runningTasks \<Rightarrow> tick" where
  "tick_append a reg =
     \<lparr>appended = a, registry = reg, read_fault = False, seek_fault = False,
      write_fault = False\<rparr>"

definition demo_logPath :: "string \<Rightarrow> int \<Rightarrow> string" where
  "demo_logPath taskID step = (if step < 0 then ''logs/neg/'' else ''logs/'') @ taskID"

definition demo_archivePath :: "string \<Rightarrow> int \<Rightarrow> string" where
  "demo_archivePath taskID step = (if step < 0 then ''archives/neg/'' else ''archives/'') @ taskID"

definition demo_executor :: Executor where
  "demo_executor = \<lparr>logPath = demo_logPath, archivePath = demo_archivePath\<rparr>"

definition one_file :: "string \<Rightarrow> bytes \<Rightarrow> filesystem" where
  "one_file p c q = (if q = p then Inr c else Inl ErrNotExist)"

definition demo_Decode :: "bytes \<Rightarrow> error + bytes" where
  "demo_Decode body =
     (case body of [] \<Rightarrow> Inl ErrIO | c # cs \<Rightarrow> if c = CHR ''{'' then Inr body else Inl ErrIO)"

definition demo_running :: runningTasks where
  "demo_running = [(''t'', \<lparr>Steps = [PhaseRunning]\<rparr>)]"

definition demo_state :: loop_state where
  "demo_state =
     \<lparr>content = ''a\<newline>bcd'', pos = 2, buf = [],
      resp = stream_headers @ [Write ''a\<newline>'', Flush],
      stop = False, flushstop = False, sleeps = 2\<rparr>"

definition demo_finished :: runningTasks where
  "demo_finished = [(''t'', \<lparr>Steps = [PhaseSuccess]\<rparr>)]"

definition demo_request :: "string \<Rightarrow> request" where
  "demo_request s = \<lparr>query = [(''taskid'', [''t'']), (''step'', [s]), (''follow'', [[]])]\<rparr>"

section \<open>The buffered reader hands out the file in order\<close>

lemma complete_line_first:
  "nl \<in> set xs \<Longrightarrow> nl \<notin> set acc \<Longrightarrow> complete_line (acc @ takeWhile (\<lambda>c. c \<noteq> nl) xs @ [nl])"
  by (auto simp: complete_line_def butlast_append dest: set_takeWhileD)

lemma ReadBytes_from_spec:
  assumes "ReadBytes_from fault acc st = (d, e, st')"
    and "pos st \<le> length (content st)"
    and "take (pos st) (content st) = pre @ acc @ buf st"
    and "nl \<notin> set acc"
  shows "st' = st\<lparr>buf := buf st', pos := pos st'\<rparr> \<and> pos st' \<le> length (content st) \<and>
     (case e of
        None \<Rightarrow> complete_line d \<and> take (pos st') (content st) = pre @ d @ buf st'
      | Some EOF \<Rightarrow> \<not> fault \<and> nl \<notin> set d \<and> buf st' = [] \<and> pos st' = length (content st)
                    \<and> content st = pre @ d
      | Some ErrIO \<Rightarrow> fault
      | Some ErrNotExist \<Rightarrow> False)"
  using assms
proof (induction fault acc st rule: ReadBytes_from.induct)
  case (1 fault acc st)
  show ?case
  proof (cases "nl \<in> set (buf st)")
    case True
    from True "1.prems"(1) have d: "d = acc @ takeWhile (\<lambda>c. c \<noteq> nl) (buf st) @ [nl]"
      and e: "e = None" and st': "st' = st\<lparr>buf := tl (dropWhile (\<lambda>c. c \<noteq> nl) (buf st))\<rparr>"
      by (simp_all add: ReadBytes_from.simps [of _ acc st])
    from True have "dropWhile (\<lambda>c. c \<noteq> nl) (buf st) \<noteq> []" by simp
    moreover have "hd (dropWhile (\<lambda>c. c \<noteq> nl) (buf st)) = nl"
      using True hd_dropWhile [of "\<lambda>c. c \<noteq> nl" "buf st"] by simp
    ultimately have "dropWhile (\<lambda>c. c \<noteq> nl) (buf st) = nl # tl (dropWhile (\<lambda>c. c \<noteq> nl) (buf st))"
      by (cases "dropWhile (\<lambda>c. c \<noteq> nl) (buf st)") auto
    then have "buf st = takeWhile (\<lambda>c. c \<noteq> nl) (buf st) @ nl # tl (dropWhile (\<lambda>c. c \<noteq> nl) (buf st))"
      using takeWhile_dropWhile_id [of "\<lambda>c. c \<noteq> nl" "buf st"] by simp
    then have "pre @ acc @ buf st = pre @ d @ buf st'"
      unfolding d st' by simp
    with "1.prems" True show ?thesis
      by (simp add: d e st' complete_line_first)
  next
    case nonl: False
    show ?thesis
    proof (cases "bufio_size \<le> length (buf st)")
      case True
      with nonl "1.prems"(1) have "ReadBytes_from fault (acc @ buf st) (st\<lparr>buf := []\<rparr>) = (d, e, st')"
        by (simp add: ReadBytes_from.simps [of _ acc st])
      from "1.IH"(1) [OF nonl True this] "1.prems" nonl show ?thesis
        by (auto split: option.splits error.splits)
    next
      case notfull: False
      show ?thesis
      proof (cases fault)
        case True
        with nonl notfull "1.prems" show ?thesis
          by (auto simp: ReadBytes_from.simps [of _ acc st])
      next
        case nofault: False
        show ?thesis
        proof (cases "length (content st) \<le> pos st")
          case True
          with nonl notfull nofault "1.prems" show ?thesis
            by (auto simp: ReadBytes_from.simps [of _ acc st])
        next
          case False
          let ?n = "min (bufio_size - length (buf st)) (length (content st) - pos st)"
          let ?st = "st\<lparr>buf := buf st @ take (bufio_size - length (buf st)) (drop (pos st) (content st)),
              pos := pos st + ?n\<rparr>"
          from nonl notfull nofault False "1.prems"(1)
          have rec: "ReadBytes_from fault acc ?st = (d, e, st')"
            by (simp add: ReadBytes_from.simps [of _ acc st])
          have tk: "take (bufio_size - length (buf st)) (drop (pos st) (content st))
              = take ?n (drop (pos st) (content st))"
            by (simp add: min_def)
          have "take (pos st + ?n) (content st) = take (pos st) (content st) @ take ?n (drop (pos st) (content st))"
            by (simp add: take_add)
          with "1.prems" tk have a: "take (pos ?st) (content ?st) = pre @ acc @ buf ?st"
            by simp
          have b: "pos ?st \<le> length (content ?st)" using False by simp
          from "1.IH"(2) [OF nonl notfull nofault False rec b a "1.prems"(4)] show ?thesis
            by (auto split: option.splits error.splits)
        qed
      qed
    qed
  qed
qed

lemma split_first_line: "nl \<in> set xs \<Longrightarrow> xs = first_line xs @ after_line xs"
proof -
  assume a: "nl \<in> set xs"
  then have "dropWhile (\<lambda>c. c \<noteq> nl) xs \<noteq> []" by simp
  moreover have "hd (dropWhile (\<lambda>c. c \<noteq> nl) xs) = nl"
    using a hd_dropWhile [of "\<lambda>c. c \<noteq> nl" xs] by simp
  ultimately have "dropWhile (\<lambda>c. c \<noteq> nl) xs = nl # after_line xs"
    unfolding after_line_def by (cases "dropWhile (\<lambda>c. c \<noteq> nl) xs") auto
  then show ?thesis
    using takeWhile_dropWhile_id [of "\<lambda>c. c \<noteq> nl" xs] by (simp add: first_line_def)
qed

lemma complete_line_unique:
  assumes "complete_line d" and "xs = d @ r"
  shows "d = first_line xs \<and> r = after_line xs \<and> nl \<in> set xs"
proof -
  from assms(1) obtain b where d: "d = b @ [nl]" and b: "nl \<notin> set b"
    unfolding complete_line_def by (cases d rule: rev_cases) auto
  have "takeWhile (\<lambda>c. c \<noteq> nl) xs = b"
    unfolding assms(2) d using b by (simp add: takeWhile_append)
  moreover have "dropWhile (\<lambda>c. c \<noteq> nl) xs = nl # r"
    unfolding assms(2) d using b by (simp add: dropWhile_append)
  ultimately show ?thesis by (simp add: first_line_def after_line_def d assms(2))
qed

lemma drop_prefix_eq:
  assumes "take n xs = p @ q"
  shows "drop (length p) xs = q @ drop n xs"
proof -
  have "(p @ q) @ drop n xs = xs"
    using append_take_drop_id [of n xs] unfolding assms .
  then have "drop (length p) xs = drop (length p) (p @ (q @ drop n xs))" by simp
  then show ?thesis by simp
qed

lemma invar_undelivered:
  "invar st \<Longrightarrow> undelivered st = buf st @ drop (pos st) (content st)"
  unfolding invar_def undelivered_def by (simp add: drop_prefix_eq)

lemma ReadBytes_line:
  assumes "invar st" and "nl \<in> set (undelivered st)" and "ReadBytes fault st = (d, e, st')"
    and "\<not> fault"
  shows "d = first_line (undelivered st) \<and> e = None \<and> st' = st\<lparr>buf := buf st', pos := pos st'\<rparr>
     \<and> pos st' \<le> length (content st)
     \<and> take (pos st') (content st) = delivered st @ d @ buf st'"
proof -
  from assms(1) have p: "pos st \<le> length (content st)"
    and t: "take (pos st) (content st) = delivered st @ [] @ buf st"
    by (simp_all add: invar_def)
  from assms(3) have r: "ReadBytes_from fault [] st = (d, e, st')" by (simp add: ReadBytes_def)
  have spec: "st' = st\<lparr>buf := buf st', pos := pos st'\<rparr> \<and> pos st' \<le> length (content st) \<and>
     (case e of
        None \<Rightarrow> complete_line d \<and> take (pos st') (content st) = delivered st @ d @ buf st'
      | Some EOF \<Rightarrow> \<not> fault \<and> nl \<notin> set d \<and> buf st' = [] \<and> pos st' = length (content st)
                    \<and> content st = delivered st @ d
      | Some ErrIO \<Rightarrow> fault
      | Some ErrNotExist \<Rightarrow> False)"
    by (rule ReadBytes_from_spec [OF r p t]) simp
  have e: "e = None"
  proof (cases e)
    case None then show ?thesis .
  next
    case (Some err)
    show ?thesis
    proof (cases err)
      case EOF
      with Some spec have "nl \<notin> set d" and "content st = delivered st @ d" by simp_all
      then have "nl \<notin> set (undelivered st)" by (simp add: undelivered_def)
      with assms(2) show ?thesis by simp
    next
      case ErrNotExist
      with Some spec show ?thesis by simp
    next
      case ErrIO
      with Some spec assms(4) show ?thesis by simp
    qed
  qed
  from spec have fr: "st' = st\<lparr>buf := buf st', pos := pos st'\<rparr>" and p': "pos st' \<le> length (content st)"
    by blast+
  from spec have c: "complete_line d" and tk: "take (pos st') (content st) = delivered st @ d @ buf st'"
    unfolding e by simp_all
  from tk have "take (pos st') (content st) = delivered st @ (d @ buf st')" by simp
  then have "undelivered st = d @ (buf st' @ drop (pos st') (content st))"
    unfolding undelivered_def by (simp add: drop_prefix_eq)
  from complete_line_unique [OF c this] have "d = first_line (undelivered st)" by simp
  with e tk fr p' show ?thesis by blast
qed

lemma ReadBytes_eof:
  assumes "invar st" and "nl \<notin> set (undelivered st)" and "ReadBytes fault st = (d, e, st')"
    and "\<not> fault"
  shows "d = undelivered st \<and> e = Some EOF \<and> st' = st\<lparr>buf := [], pos := length (content st)\<rparr>"
proof -
  from assms(1) have p: "pos st \<le> length (content st)"
    and t: "take (pos st) (content st) = delivered st @ [] @ buf st"
    by (simp_all add: invar_def)
  from assms(3) have r: "ReadBytes_from fault [] st = (d, e, st')" by (simp add: ReadBytes_def)
  have spec: "st' = st\<lparr>buf := buf st', pos := pos st'\<rparr> \<and> pos st' \<le> length (content st) \<and>
     (case e of
        None \<Rightarrow> complete_line d \<and> take (pos st') (content st) = delivered st @ d @ buf st'
      | Some EOF \<Rightarrow> \<not> fault \<and> nl \<notin> set d \<and> buf st' = [] \<and> pos st' = length (content st)
                    \<and> content st = delivered st @ d
      | Some ErrIO \<Rightarrow> fault
      | Some ErrNotExist \<Rightarrow> False)"
    by (rule ReadBytes_from_spec [OF r p t]) simp
  have e: "e = Some EOF"
  proof (cases e)
    case None
    with spec have c: "complete_line d" and tk: "take (pos st') (content st) = delivered st @ d @ buf st'"
      by simp_all
    from tk have "take (pos st') (content st) = delivered st @ (d @ buf st')" by simp
    then have "undelivered st = d @ (buf st' @ drop (pos st') (content st))"
      unfolding undelivered_def by (simp add: drop_prefix_eq)
    from complete_line_unique [OF c this] assms(2) show ?thesis by simp
  next
    case (Some err)
    with spec assms(4) show ?thesis by (cases err) simp_all
  qed
  from spec have fr: "st' = st\<lparr>buf := buf st', pos := pos st'\<rparr>" by blast
  from spec have c: "content st = delivered st @ d" and b: "buf st' = []"
    and p': "pos st' = length (content st)"
    unfolding e by simp_all
  from fr have "st' = st\<lparr>buf := [], pos := length (content st)\<rparr>"
    unfolding b p' .
  moreover from c have "d = undelivered st" by (simp add: undelivered_def)
  ultimately show ?thesis using e by simp
qed

lemma writes_append [simp]: "writes (xs @ ys) = writes xs @ writes ys"
  by (induction xs rule: writes.induct) simp_all

lemma invar_appended:
  assumes "invar st"
  shows "invar (st\<lparr>content := content st @ a\<rparr>)"
    and "undelivered (st\<lparr>content := content st @ a\<rparr>) = undelivered st @ a"
    and "delivered (st\<lparr>content := content st @ a\<rparr>) = delivered st"
proof -
  from assms have p: "pos st \<le> length (content st)"
    and t: "take (pos st) (content st) = delivered st @ buf st"
    by (simp_all add: invar_def)
  from t have "length (delivered st) + length (buf st) = min (length (content st)) (pos st)"
    by (metis length_append length_take)
  with p have l: "length (delivered st) \<le> length (content st)" by simp
  show "delivered (st\<lparr>content := content st @ a\<rparr>) = delivered st"
    by (simp add: delivered_def)
  show "invar (st\<lparr>content := content st @ a\<rparr>)"
    using p t by (simp add: invar_def delivered_def)
  show "undelivered (st\<lparr>content := content st @ a\<rparr>) = undelivered st @ a"
    using l by (simp add: undelivered_def delivered_def)
qed

lemma invar_prefix: "invar st \<Longrightarrow> prefix (delivered st) (content st)"
  unfolding invar_def by (metis append_take_drop_id append.assoc prefixI)

lemma invar_split: "invar st \<Longrightarrow> content st = delivered st @ undelivered st"
proof -
  assume "invar st"
  then obtain zs where z: "content st = delivered st @ zs"
    using invar_prefix by (auto simp: prefix_def)
  have "undelivered st = drop (length (delivered st)) (delivered st @ zs)"
    unfolding undelivered_def z [symmetric] ..
  then show ?thesis using z by simp
qed

lemma body_step:
  assumes inv: "invar st" and ok: "lines_ok st" and ns: "\<not> stop st"
    and body: "readLogs_body flusher taskID step follow t st = (r, st')"
  shows "content st' = content st @ appended t \<and> lines_ok st'
     \<and> prefix (delivered st') (content st') \<and> (r = None \<longrightarrow> invar st')"
proof -
  let ?sa = "st\<lparr>content := content st @ appended t\<rparr>"
  obtain d e st1 where rb: "ReadBytes (read_fault t) ?sa = (d, e, st1)"
    by (cases "ReadBytes (read_fault t) ?sa") auto
  have ia: "invar ?sa" and da: "delivered ?sa = delivered st"
    using invar_appended [OF inv] by simp_all
  from ia have p: "pos ?sa \<le> length (content ?sa)"
    and t: "take (pos ?sa) (content ?sa) = delivered ?sa @ [] @ buf ?sa"
    by (simp_all add: invar_def)
  from rb have r: "ReadBytes_from (read_fault t) [] ?sa = (d, e, st1)" by (simp add: ReadBytes_def)
  have spec: "st1 = ?sa\<lparr>buf := buf st1, pos := pos st1\<rparr> \<and> pos st1 \<le> length (content ?sa) \<and>
     (case e of
        None \<Rightarrow> complete_line d \<and> take (pos st1) (content ?sa) = delivered ?sa @ d @ buf st1
      | Some EOF \<Rightarrow> \<not> read_fault t \<and> nl \<notin> set d \<and> buf st1 = [] \<and> pos st1 = length (content ?sa)
                    \<and> content ?sa = delivered ?sa @ d
      | Some ErrIO \<Rightarrow> read_fault t
      | Some ErrNotExist \<Rightarrow> False)"
    by (rule ReadBytes_from_spec [OF r p t]) simp
  then have fr: "st1 = ?sa\<lparr>buf := buf st1, pos := pos st1\<rparr>" by blast
  from fr have c1: "content st1 = content st @ appended t" and r1: "resp st1 = resp st"
    and s1: "stop st1 = stop st" and f1: "flushstop st1 = flushstop st"
    by (metis loop_state.select_convs loop_state.surjective loop_state.update_convs)+
  have d1: "delivered st1 = delivered st" by (simp add: delivered_def r1)
  have ok1: "lines_ok st1" using ok by (simp add: lines_ok_def r1 s1)
  have all: "\<forall>u \<in> set (writes (resp st)). complete_line u"
    using ok ns by (simp add: lines_ok_def)
  have pre1: "prefix (delivered st1) (content st1)"
    using invar_prefix [OF ia] by (simp add: d1 c1 da)
  show ?thesis
  proof (cases e)
    case None
    with spec have cl: "complete_line d"
      and tk: "take (pos st1) (content st1) = delivered st @ d @ buf st1"
      and p1: "pos st1 \<le> length (content st1)"
      by (simp_all add: da c1)
    show ?thesis
    proof (cases "write_fault t")
      case True
      with body rb None have "r = Some (Returned (Some ErrIO))" and "st' = st1"
        by (simp_all add: readLogs_body_def write_flush_def)
      with ok1 pre1 c1 show ?thesis by simp
    next
      case False
      with body rb None have r: "r = None"
        and st': "st' = st1\<lparr>resp := resp st1 @ Write d # (if flusher then [Flush] else [])\<rparr>"
        by (simp_all add: readLogs_body_def write_flush_def)
      have dl: "delivered st' = delivered st @ d"
        by (simp add: st' delivered_def r1)
      have "invar st'"
        using tk p1 by (simp add: invar_def dl) (simp add: st')
      moreover have "lines_ok st'"
        using all cl ns by (simp add: lines_ok_def st' r1 s1)
      moreover have "content st' = content st @ appended t" by (simp add: st' c1)
      ultimately show ?thesis using invar_prefix by blast
    qed
  next
    case (Some err)
    show ?thesis
    proof (cases err)
      case EOF
      with Some spec have "\<not> read_fault t \<and> nl \<notin> set d \<and> buf st1 = []
          \<and> pos st1 = length (content ?sa) \<and> content ?sa = delivered ?sa @ d"
        by simp
      then have b1: "buf st1 = []" and p1': "pos st1 = length (content ?sa)"
        and cd': "content ?sa = delivered ?sa @ d"
        by blast+
      from p1' have p1: "pos st1 = length (content st1)" by (simp add: c1)
      from cd' have cd: "content st1 = delivered st @ d" by (simp add: c1 da)
      show ?thesis
      proof (cases "\<not> flushstop st \<and> follow")
        case poll: True
        show ?thesis
        proof (cases "seek_fault t \<or> pos st1 < length d")
          case True
          with body rb Some EOF poll have "r = Some (Returned (Some ErrIO))" and "st' = st1"
            by (auto simp: readLogs_body_def f1)
          with ok1 pre1 c1 show ?thesis by simp
        next
          case False
          with body rb Some EOF poll
          have fields: "content st' = content st1 \<and> resp st' = resp st1 \<and> stop st' = stop st1
              \<and> buf st' = buf st1 \<and> pos st' = pos st1 - length d"
            by (auto simp: readLogs_body_def f1 split: option.splits if_splits)
          then have dl: "delivered st' = delivered st" by (simp add: delivered_def r1)
          from fields p1 cd have "pos st' = length (delivered st)" by simp
          with fields cd b1 dl have "invar st'" by (simp add: invar_def)
          moreover have "lines_ok st'" using ok fields by (simp add: lines_ok_def r1 s1)
          moreover have "content st' = content st @ appended t" using fields by (simp add: c1)
          ultimately show ?thesis using invar_prefix by blast
        qed
      next
        case fin: False
        show ?thesis
        proof (cases "write_fault t")
          case True
          with body rb Some EOF fin have "r = Some (Returned (Some ErrIO))"
            and st': "st' = st1\<lparr>stop := True\<rparr>"
            by (auto simp: readLogs_body_def write_flush_def f1)
          have "lines_ok st'"
            using all by (auto simp: lines_ok_def st' r1 dest: in_set_butlastD)
          moreover have "prefix (delivered st') (content st')"
            using pre1 by (simp add: st' delivered_def)
          ultimately show ?thesis using \<open>r = Some (Returned (Some ErrIO))\<close> by (simp add: st' c1)
        next
          case False
          with body rb Some EOF fin have r: "r = None"
            and st': "st' = st1\<lparr>stop := True,
                resp := resp st1 @ Write d # (if flusher then [Flush] else [])\<rparr>"
            by (auto simp: readLogs_body_def write_flush_def f1)
          have dl: "delivered st' = delivered st @ d"
            by (simp add: st' delivered_def r1)
          have "invar st'"
            using cd p1 b1 by (simp add: invar_def dl) (simp add: st')
          moreover have "lines_ok st'"
            using all by (simp add: lines_ok_def st' r1)
          moreover have "content st' = content st @ appended t" by (simp add: st' c1)
          ultimately show ?thesis using invar_prefix by blast
        qed
      qed
    next
      case ErrNotExist
      with Some body rb have "r = Some (Returned (Some err))" and "st' = st1"
        by (simp_all add: readLogs_body_def)
      with ok1 pre1 c1 show ?thesis by simp
    next
      case ErrIO
      with Some body rb have "r = Some (Returned (Some err))" and "st' = st1"
        by (simp_all add: readLogs_body_def)
      with ok1 pre1 c1 show ?thesis by simp
    qed
  qed
qed

lemma loop_invariant:
  assumes "invar st" and "lines_ok st"
    and "readLogs_loop flusher taskID step follow sched st = (r, st')"
  shows "lines_ok st' \<and> prefix (delivered st') (content st')
     \<and> (\<exists>n \<le> length sched. content st' = content st @ concat (map appended (take n sched)))
     \<and> (r = Unfinished \<longrightarrow> invar st' \<and> \<not> stop st')"
  using assms
proof (induction sched arbitrary: st)
  case Nil
  then show ?case by (auto simp: invar_prefix split: if_splits)
next
  case (Cons t ts)
  show ?case
  proof (cases "stop st")
    case True
    with Cons.prems have "r = Returned None" and "st' = st" by simp_all
    with Cons.prems show ?thesis
      by (auto simp: invar_prefix intro: exI [of _ 0])
  next
    case False
    obtain b st1 where body: "readLogs_body flusher taskID step follow t st = (b, st1)"
      by (cases "readLogs_body flusher taskID step follow t st") auto
    from body_step [OF Cons.prems(1,2) False body]
    have c1: "content st1 = content st @ appended t" and ok1: "lines_ok st1"
      and pre1: "prefix (delivered st1) (content st1)" and inv1: "b = None \<longrightarrow> invar st1"
      by blast+
    show ?thesis
    proof (cases b)
      case None
      with Cons.prems(3) False body
      have run: "readLogs_loop flusher taskID step follow ts st1 = (r, st')" by simp
      from inv1 None have "invar st1" by simp
      from Cons.IH [OF this ok1 run] obtain n where n: "n \<le> length ts"
        and c: "content st' = content st1 @ concat (map appended (take n ts))"
        and rest: "lines_ok st'" "prefix (delivered st') (content st')"
          "r = Unfinished \<longrightarrow> invar st' \<and> \<not> stop st'"
        by blast
      from n c c1 have "Suc n \<le> length (t # ts)
          \<and> content st' = content st @ concat (map appended (take (Suc n) (t # ts)))"
        by simp
      with rest show ?thesis by blast
    next
      case (Some res)
      with Cons.prems(3) False body have "r = res" and "st' = st1" by simp_all
      moreover have "res \<noteq> Unfinished"
        using body Some
        by (auto simp: readLogs_body_def write_flush_def split: prod.splits option.splits if_splits)
      moreover from c1 have "Suc 0 \<le> length (t # ts)
          \<and> content st1 = content st @ concat (map appended (take (Suc 0) (t # ts)))"
        by simp
      ultimately show ?thesis using ok1 pre1 by blast
    qed
  qed
qed

lemma body_line:
  assumes inv: "invar st" and nf: "nofault t"
    and nlin: "nl \<in> set (undelivered st @ appended t)"
  shows "\<exists>st'. readLogs_body flusher taskID step follow t st = (None, st') \<and> invar st'
     \<and> resp st' = resp st @ Write (first_line (undelivered st @ appended t))
                               # (if flusher then [Flush] else [])
     \<and> content st' = content st @ appended t \<and> stop st' = stop st
     \<and> flushstop st' = flushstop st \<and> sleeps st' = sleeps st
     \<and> undelivered st' = after_line (undelivered st @ appended t)"
proof -
  let ?sa = "st\<lparr>content := content st @ appended t\<rparr>"
  let ?u = "undelivered st @ appended t"
  obtain d e st1 where rb: "ReadBytes (read_fault t) ?sa = (d, e, st1)"
    by (cases "ReadBytes (read_fault t) ?sa") auto
  have ia: "invar ?sa" and ua: "undelivered ?sa = ?u" and da: "delivered ?sa = delivered st"
    using invar_appended [OF inv] by simp_all
  from nf have nr: "\<not> read_fault t" and nw: "\<not> write_fault t" by (simp_all add: nofault_def)
  from ReadBytes_line [OF ia _ rb nr] nlin ua
  have d: "d = first_line ?u" and e: "e = None"
    and fr: "st1 = ?sa\<lparr>buf := buf st1, pos := pos st1\<rparr>"
    and p1: "pos st1 \<le> length (content ?sa)"
    and tk: "take (pos st1) (content ?sa) = delivered ?sa @ d @ buf st1"
    by simp_all
  from fr have c1: "content st1 = content st @ appended t" and r1: "resp st1 = resp st"
    and s1: "stop st1 = stop st" and f1: "flushstop st1 = flushstop st"
    and sl1: "sleeps st1 = sleeps st"
    by (metis loop_state.select_convs loop_state.surjective loop_state.update_convs)+
  let ?st' = "st1\<lparr>resp := resp st1 @ Write d # (if flusher then [Flush] else [])\<rparr>"
  from rb e nw have body: "readLogs_body flusher taskID step follow t st = (None, ?st')"
    by (simp add: readLogs_body_def write_flush_def)
  have dl: "delivered ?st' = delivered st @ d" by (simp add: delivered_def r1)
  have inv': "invar ?st'"
    using tk p1 by (simp add: invar_def dl da c1)
  have "undelivered ?sa = first_line ?u @ after_line ?u"
    using split_first_line [OF nlin] ua by simp
  then have "drop (length (delivered st)) (content st1) = d @ after_line ?u"
    by (simp add: undelivered_def da c1 d)
  then have "drop (length d) (drop (length (delivered st)) (content st1)) = after_line ?u"
    by simp
  then have un: "undelivered ?st' = after_line ?u"
    by (simp add: undelivered_def dl add.commute)
  from body inv' un show ?thesis
    by (intro exI [of _ ?st']) (simp add: r1 d c1 s1 f1 sl1)
qed

lemma body_eof_stop:
  assumes inv: "invar st" and nf: "nofault t"
    and nonl: "nl \<notin> set (undelivered st @ appended t)"
    and mode: "follow \<longrightarrow> flushstop st"
  shows "\<exists>st'. readLogs_body flusher taskID step follow t st = (None, st') \<and> invar st'
     \<and> resp st' = resp st @ Write (undelivered st @ appended t)
                               # (if flusher then [Flush] else [])
     \<and> content st' = content st @ appended t \<and> stop st'
     \<and> flushstop st' = flushstop st \<and> sleeps st' = sleeps st"
proof -
  let ?sa = "st\<lparr>content := content st @ appended t\<rparr>"
  let ?u = "undelivered st @ appended t"
  obtain d e st1 where rb: "ReadBytes (read_fault t) ?sa = (d, e, st1)"
    by (cases "ReadBytes (read_fault t) ?sa") auto
  have ia: "invar ?sa" and ua: "undelivered ?sa = ?u" and da: "delivered ?sa = delivered st"
    using invar_appended [OF inv] by simp_all
  from nf have nr: "\<not> read_fault t" and nw: "\<not> write_fault t" by (simp_all add: nofault_def)
  from ReadBytes_eof [OF ia _ rb nr] nonl ua
  have d: "d = ?u" and e: "e = Some EOF"
    and st1: "st1 = ?sa\<lparr>buf := [], pos := length (content ?sa)\<rparr>"
    by simp_all
  let ?st' = "st1\<lparr>stop := True, resp := resp st1 @ Write d # (if flusher then [Flush] else [])\<rparr>"
  from rb e nw mode have body: "readLogs_body flusher taskID step follow t st = (None, ?st')"
    by (auto simp: readLogs_body_def write_flush_def st1)
  have "content ?sa = delivered st @ undelivered ?sa"
    using invar_split [OF ia] by (simp only: da)
  then have "content st @ appended t = delivered st @ d"
    by (simp add: ua d)
  then have inv': "invar ?st'"
    by (simp add: invar_def delivered_def st1)
  from body inv' show ?thesis
    by (intro exI [of _ ?st']) (simp add: st1 d)
qed

lemma body_eof_poll:
  assumes inv: "invar st" and nf: "nofault t"
    and nonl: "nl \<notin> set (undelivered st @ appended t)"
    and mode: "\<not> flushstop st"
  shows "\<exists>st'. readLogs_body flusher taskID step True t st
        = (if step_panics (registry t) taskID step then Some Panicked else None, st')
     \<and> invar st' \<and> resp st' = resp st \<and> content st' = content st @ appended t
     \<and> stop st' = stop st \<and> buf st' = [] \<and> pos st' = length (delivered st)
     \<and> (\<not> step_panics (registry t) taskID step \<longrightarrow>
          flushstop st' = step_finished (registry t) taskID step \<and> sleeps st' = Suc (sleeps st))"
proof -
  let ?sa = "st\<lparr>content := content st @ appended t\<rparr>"
  let ?u = "undelivered st @ appended t"
  obtain d e st1 where rb: "ReadBytes (read_fault t) ?sa = (d, e, st1)"
    by (cases "ReadBytes (read_fault t) ?sa") auto
  have ia: "invar ?sa" and ua: "undelivered ?sa = ?u" and da: "delivered ?sa = delivered st"
    using invar_appended [OF inv] by simp_all
  from nf have nr: "\<not> read_fault t" and ns: "\<not> seek_fault t" by (simp_all add: nofault_def)
  from ReadBytes_eof [OF ia _ rb nr] nonl ua
  have d: "d = ?u" and e: "e = Some EOF"
    and st1: "st1 = ?sa\<lparr>buf := [], pos := length (content ?sa)\<rparr>"
    by simp_all
  have "content ?sa = delivered st @ undelivered ?sa"
    using invar_split [OF ia] by (simp only: da)
  then have cd: "content st @ appended t = delivered st @ d"
    by (simp add: ua d)
  then have len: "length (content st) + length (appended t) = length (delivered st) + length d"
    by (metis length_append)
  obtain b st' where body: "readLogs_body flusher taskID step True t st = (b, st')"
    by (cases "readLogs_body flusher taskID step True t st") auto
  from body rb e ns mode len
  have fields: "content st' = content st1 \<and> resp st' = resp st1 \<and> stop st' = stop st1
      \<and> buf st' = buf st1 \<and> pos st' = pos st1 - length d"
    by (auto simp: readLogs_body_def st1 split: option.splits if_splits)
  from body rb e ns mode len
  have b: "b = (if step_panics (registry t) taskID step then Some Panicked else None)"
    by (auto simp: readLogs_body_def st1 step_panics_def split: option.splits if_splits)
  from body rb e ns mode len
  have fl: "\<not> step_panics (registry t) taskID step \<longrightarrow>
      flushstop st' = step_finished (registry t) taskID step \<and> sleeps st' = Suc (sleeps st)"
    by (auto simp: readLogs_body_def st1 step_panics_def step_finished_def
          split: option.splits if_splits)
  from fields have p': "pos st' = length (delivered st)" using len by (simp add: st1)
  from fields have dl: "delivered st' = delivered st" by (simp add: delivered_def st1)
  from fields have c': "content st' = content st @ appended t" by (simp add: st1)
  from fields have b': "buf st' = []" by (simp add: st1)
  have "invar st'"
    by (simp add: invar_def dl p' c' b' cd)
  with body b fl fields p' c' b' show ?thesis
    by (intro exI [of _ st']) (simp add: st1)
qed

lemma units_nl: "nl \<in> set xs \<Longrightarrow> units xs = first_line xs # units (after_line xs)"
  by (simp add: units.simps [of xs])

lemma units_nonl: "nl \<notin> set xs \<Longrightarrow> units xs = [xs]"
  by (simp add: units.simps [of xs])

lemma units_not_Nil: "units xs \<noteq> []"
  by (cases "nl \<in> set xs") (simp_all add: units_nl units_nonl)

lemma concat_units: "concat (units xs) = xs"
proof (induction xs rule: units.induct)
  case (1 xs)
  show ?case
  proof (cases "nl \<in> set xs")
    case True
    with 1 split_first_line [OF True] show ?thesis by (simp add: units_nl)
  next
    case False
    then show ?thesis by (simp add: units_nonl)
  qed
qed

lemma units_shape:
  "(\<forall>u \<in> set (butlast (units xs)). complete_line u) \<and> nl \<notin> set (last (units xs))"
proof (induction xs rule: units.induct)
  case (1 xs)
  show ?case
  proof (cases "nl \<in> set xs")
    case True
    have "complete_line (first_line xs)"
      using complete_line_first [OF True, of "[]"] by (simp add: first_line_def)
    with 1 True show ?thesis by (simp add: units_nl units_not_Nil)
  next
    case False
    then show ?thesis by (simp add: units_nonl)
  qed
qed

lemma emit_append [simp]: "emit flusher (xs @ ys) = emit flusher xs @ emit flusher ys"
  by (induction xs) simp_all

lemma writes_emit [simp]: "writes (emit flusher us) = us"
  by (induction us) simp_all




lemma drain_stop:
  assumes "invar st" and "\<not> stop st" and "follow \<longrightarrow> flushstop st"
    and "\<forall>t \<in> set sched. quiet t"
    and "length (units (undelivered st)) \<le> length sched"
  shows "\<exists>st'. readLogs_loop flusher taskID step follow (sched @ rest) st = (Returned None, st')
     \<and> resp st' = resp st @ emit flusher (units (undelivered st))
     \<and> content st' = content st \<and> sleeps st' = sleeps st \<and> flushstop st' = flushstop st"
  using assms
proof (induction sched arbitrary: st)
  case Nil
  then show ?case by (simp add: units_not_Nil)
next
  case (Cons t ts)
  from Cons.prems(4) have q: "appended t = []" and nf: "nofault t" by (simp_all add: quiet_def)
  show ?case
  proof (cases "nl \<in> set (undelivered st)")
    case True
    with q have "nl \<in> set (undelivered st @ appended t)" by simp
    from body_line [OF Cons.prems(1) nf this, of flusher taskID step follow] q
    obtain st1 where body: "readLogs_body flusher taskID step follow t st = (None, st1)"
      and i1: "invar st1"
      and r1: "resp st1 = resp st @ Write (first_line (undelivered st)) # (if flusher then [Flush] else [])"
      and c1: "content st1 = content st" and s1: "stop st1 = stop st"
      and f1: "flushstop st1 = flushstop st" and sl1: "sleeps st1 = sleeps st"
      and u1: "undelivered st1 = after_line (undelivered st)"
      by auto
    from Cons.prems(5) True have len: "length (units (undelivered st1)) \<le> length ts"
      by (simp add: units_nl u1)
    from Cons.IH [OF i1 _ _ _ len] Cons.prems s1 f1
    obtain st' where "readLogs_loop flusher taskID step follow (ts @ rest) st1 = (Returned None, st')"
      and "resp st' = resp st1 @ emit flusher (units (undelivered st1))"
      and "content st' = content st1" and "sleeps st' = sleeps st1"
      and "flushstop st' = flushstop st1"
      by auto
    with body Cons.prems(2) True show ?thesis
      by (simp add: r1 c1 f1 sl1 u1 units_nl)
  next
    case False
    with q have "nl \<notin> set (undelivered st @ appended t)" by simp
    from body_eof_stop [OF Cons.prems(1) nf this Cons.prems(3), of flusher taskID step] q
    obtain st1 where body: "readLogs_body flusher taskID step follow t st = (None, st1)"
      and r1: "resp st1 = resp st @ Write (undelivered st) # (if flusher then [Flush] else [])"
      and c1: "content st1 = content st" and s1: "stop st1"
      and f1: "flushstop st1 = flushstop st" and sl1: "sleeps st1 = sleeps st"
      by auto
    from s1 have "readLogs_loop flusher taskID step follow (ts @ rest) st1 = (Returned None, st1)"
      by (cases "ts @ rest") simp_all
    with body Cons.prems(2) False show ?thesis
      by (simp add: r1 c1 f1 sl1 units_nonl)
  qed
qed

lemma drain_lines:
  assumes "invar st" and "\<not> stop st"
    and "\<forall>t \<in> set sched. quiet t"
    and "Suc (length sched) = length (units (undelivered st))"
  shows "\<exists>st'. readLogs_loop flusher taskID step follow (sched @ rest) st
        = readLogs_loop flusher taskID step follow rest st'
     \<and> invar st' \<and> \<not> stop st' \<and> flushstop st' = flushstop st \<and> sleeps st' = sleeps st
     \<and> content st' = content st
     \<and> resp st' = resp st @ emit flusher (butlast (units (undelivered st)))
     \<and> undelivered st' = last (units (undelivered st))"
  using assms
proof (induction sched arbitrary: st)
  case Nil
  then have "nl \<notin> set (undelivered st)"
    by (cases "nl \<in> set (undelivered st)") (simp_all add: units_nl units_not_Nil)
  with Nil show ?case by (intro exI [of _ st]) (simp add: units_nonl)
next
  case (Cons t ts)
  from Cons.prems(3) have q: "appended t = []" and nf: "nofault t" by (simp_all add: quiet_def)
  from Cons.prems(4) have True: "nl \<in> set (undelivered st)"
    by (cases "nl \<in> set (undelivered st)") (simp_all add: units_nonl)
  with q have "nl \<in> set (undelivered st @ appended t)" by simp
  from body_line [OF Cons.prems(1) nf this, of flusher taskID step follow] q
  obtain st1 where body: "readLogs_body flusher taskID step follow t st = (None, st1)"
    and i1: "invar st1"
    and r1: "resp st1 = resp st @ Write (first_line (undelivered st)) # (if flusher then [Flush] else [])"
    and c1: "content st1 = content st" and s1: "stop st1 = stop st"
    and f1: "flushstop st1 = flushstop st" and sl1: "sleeps st1 = sleeps st"
    and u1: "undelivered st1 = after_line (undelivered st)"
    by auto
  from Cons.prems(4) True have len: "Suc (length ts) = length (units (undelivered st1))"
    by (simp add: units_nl u1)
  from Cons.IH [OF i1 _ _ len] Cons.prems s1
  obtain st' where "readLogs_loop flusher taskID step follow (ts @ rest) st1
        = readLogs_loop flusher taskID step follow rest st'"
    and "invar st'" and "\<not> stop st'" and "flushstop st' = flushstop st1"
    and "sleeps st' = sleeps st1" and "content st' = content st1"
    and "resp st' = resp st1 @ emit flusher (butlast (units (undelivered st1)))"
    and "undelivered st' = last (units (undelivered st1))"
    by auto
  with body Cons.prems(2) True show ?case
    by (intro exI [of _ st']) (simp add: r1 c1 f1 sl1 u1 units_nl units_not_Nil)
qed

lemma wait_polls:
  assumes "invar st" and "\<not> stop st" and "\<not> flushstop st"
    and "nl \<notin> set (undelivered st)"
    and "\<forall>t \<in> set sched. quiet t \<and> step_running (registry t) taskID step"
  shows "\<exists>st'. readLogs_loop flusher taskID step True (sched @ rest) st
        = readLogs_loop flusher taskID step True rest st'
     \<and> invar st' \<and> \<not> stop st' \<and> \<not> flushstop st' \<and> sleeps st' = sleeps st + length sched
     \<and> content st' = content st \<and> resp st' = resp st"
  using assms
proof (induction sched arbitrary: st)
  case Nil
  then show ?case by (intro exI [of _ st]) simp
next
  case (Cons t ts)
  from Cons.prems(5) have q: "appended t = []" and nf: "nofault t"
    and run: "step_running (registry t) taskID step"
    by (simp_all add: quiet_def)
  from run have np: "\<not> step_panics (registry t) taskID step"
    and nfin: "\<not> step_finished (registry t) taskID step"
    by (auto simp: step_running_def step_panics_def step_finished_def split: option.splits)
  from Cons.prems(4) q have "nl \<notin> set (undelivered st @ appended t)" by simp
  from body_eof_poll [OF Cons.prems(1) nf this Cons.prems(3), of flusher taskID step] q np nfin
  obtain st1 where body: "readLogs_body flusher taskID step True t st = (None, st1)"
    and i1: "invar st1" and r1: "resp st1 = resp st"
    and c1: "content st1 = content st" and s1: "stop st1 = stop st"
    and f1: "\<not> flushstop st1" and sl1: "sleeps st1 = Suc (sleeps st)"
    by auto
  have u1: "undelivered st1 = undelivered st"
    by (simp add: undelivered_def delivered_def r1 c1)
  from Cons.IH [OF i1 _ f1] Cons.prems s1 u1
  obtain st' where "readLogs_loop flusher taskID step True (ts @ rest) st1
        = readLogs_loop flusher taskID step True rest st'"
    and "invar st'" and "\<not> stop st'" and "\<not> flushstop st'"
    and "sleeps st' = sleeps st1 + length ts" and "content st' = content st1"
    and "resp st' = resp st1"
    by auto
  with body Cons.prems(2) show ?case
    by (intro exI [of _ st']) (simp add: r1 c1 sl1)
qed

lemma first_line_append: "nl \<in> set xs \<Longrightarrow> first_line (xs @ a) = first_line xs"
  by (auto simp: first_line_def takeWhile_append)

lemma after_line_append: "nl \<in> set xs \<Longrightarrow> after_line (xs @ a) = after_line xs @ a"
  by (auto simp: after_line_def dropWhile_append)

lemma units_append: "units (xs @ a) = butlast (units xs) @ units (last (units xs) @ a)"
proof (induction xs rule: units.induct)
  case (1 xs)
  show ?case
  proof (cases "nl \<in> set xs")
    case True
    then have "units (xs @ a) = first_line xs # units (after_line xs @ a)"
      by (simp add: units_nl first_line_append after_line_append)
    with 1 True show ?thesis by (simp add: units_nl units_not_Nil)
  next
    case False
    then show ?thesis by (simp add: units_nonl)
  qed
qed

lemma units_explicit:
  "\<forall>l \<in> set ls. complete_line l \<Longrightarrow> nl \<notin> set p \<Longrightarrow> units (concat ls @ p) = ls @ [p]"
proof (induction ls)
  case Nil
  then show ?case by (simp add: units_nonl)
next
  case (Cons l ls)
  then have cl: "complete_line l" by simp
  let ?xs = "concat (l # ls) @ p"
  have eq: "?xs = l @ (concat ls @ p)" by simp
  from complete_line_unique [OF cl eq]
  have a: "first_line ?xs = l" and b: "after_line ?xs = concat ls @ p" and c: "nl \<in> set ?xs"
    by (blast intro: sym)+
  have "units ?xs = first_line ?xs # units (after_line ?xs)"
    using c by (rule units_nl)
  then have "units ?xs = l # units (concat ls @ p)"
    unfolding a b .
  moreover from Cons have "units (concat ls @ p) = ls @ [p]" by simp
  ultimately show ?case by simp
qed

lemma drain_stop_app:
  assumes inv: "invar st" and ns: "\<not> stop st" and mode: "follow \<longrightarrow> flushstop st"
    and nf: "nofault t" and q: "\<forall>t \<in> set sched. quiet t"
    and len: "length (units (undelivered st @ appended t)) \<le> Suc (length sched)"
  shows "\<exists>st'. readLogs_loop flusher taskID step follow (t # sched @ rest) st = (Returned None, st')
     \<and> resp st' = resp st @ emit flusher (units (undelivered st @ appended t))
     \<and> content st' = content st @ appended t \<and> sleeps st' = sleeps st
     \<and> flushstop st' = flushstop st"
proof (cases "nl \<in> set (undelivered st @ appended t)")
  case True
  from body_line [OF inv nf True, of flusher taskID step follow]
  obtain st1 where body: "readLogs_body flusher taskID step follow t st = (None, st1)"
    and i1: "invar st1"
    and r1: "resp st1 = resp st @ Write (first_line (undelivered st @ appended t))
                 # (if flusher then [Flush] else [])"
    and c1: "content st1 = content st @ appended t" and s1: "stop st1 = stop st"
    and f1: "flushstop st1 = flushstop st" and sl1: "sleeps st1 = sleeps st"
    and u1: "undelivered st1 = after_line (undelivered st @ appended t)"
    by auto
  from len True have len1: "length (units (undelivered st1)) \<le> length sched"
    by (simp add: units_nl u1)
  from drain_stop [OF i1 _ _ q len1, of follow flusher taskID step rest] ns mode s1 f1
  obtain st' where "readLogs_loop flusher taskID step follow (sched @ rest) st1 = (Returned None, st')"
    and "resp st' = resp st1 @ emit flusher (units (undelivered st1))"
    and "content st' = content st1" and "sleeps st' = sleeps st1"
    and "flushstop st' = flushstop st1"
    by auto
  with body ns True show ?thesis
    by (simp add: r1 c1 f1 sl1 u1 units_nl)
next
  case False
  from body_eof_stop [OF inv nf False mode, of flusher taskID step]
  obtain st1 where body: "readLogs_body flusher taskID step follow t st = (None, st1)"
    and r1: "resp st1 = resp st @ Write (undelivered st @ appended t)
                 # (if flusher then [Flush] else [])"
    and c1: "content st1 = content st @ appended t" and s1: "stop st1"
    and f1: "flushstop st1 = flushstop st" and sl1: "sleeps st1 = sleeps st"
    by auto
  from s1 have "readLogs_loop flusher taskID step follow (sched @ rest) st1 = (Returned None, st1)"
    by (cases "sched @ rest") simp_all
  with body ns False show ?thesis
    by (simp add: r1 c1 f1 sl1 units_nonl)
qed

lemma follow_run:
  assumes inv: "invar st" and ns: "\<not> stop st" and nfs: "\<not> flushstop st"
    and ql: "\<forall>t \<in> set s_lines. quiet t"
    and ll: "Suc (length s_lines) = length (units (undelivered st))"
    and qw: "\<forall>t \<in> set s_wait. quiet t \<and> step_running (registry t) taskID step"
    and qf: "quiet t_fin" and fin: "step_finished (registry t_fin) taskID step"
    and nl: "nofault t_last" and qp: "\<forall>t \<in> set s_pass. quiet t"
    and lp: "length (units (last (units (undelivered st)) @ appended t_last)) \<le> Suc (length s_pass)"
  shows "\<exists>st'. readLogs_loop flusher taskID step True
            (s_lines @ s_wait @ t_fin # t_last # s_pass @ rest) st = (Returned None, st')
     \<and> resp st' = resp st @ emit flusher (units (undelivered st @ appended t_last))
     \<and> content st' = content st @ appended t_last
     \<and> sleeps st' = Suc (sleeps st + length s_wait)"
proof -
  let ?u = "undelivered st"
  from drain_lines [OF inv ns ql ll, of flusher taskID step True "s_wait @ t_fin # t_last # s_pass @ rest"]
  obtain st1 where l1: "readLogs_loop flusher taskID step True
        (s_lines @ s_wait @ t_fin # t_last # s_pass @ rest) st
        = readLogs_loop flusher taskID step True (s_wait @ t_fin # t_last # s_pass @ rest) st1"
    and i1: "invar st1" and s1: "\<not> stop st1" and f1: "flushstop st1 = flushstop st"
    and sl1: "sleeps st1 = sleeps st" and c1: "content st1 = content st"
    and r1: "resp st1 = resp st @ emit flusher (butlast (units ?u))"
    and u1: "undelivered st1 = last (units ?u)"
    by blast
  from units_shape [of ?u] u1 have n1: "nl \<notin> set (undelivered st1)" by simp
  from f1 nfs have f1': "\<not> flushstop st1" by simp
  from wait_polls [OF i1 s1 f1' n1 qw, of flusher "t_fin # t_last # s_pass @ rest"]
  obtain st2 where l2: "readLogs_loop flusher taskID step True
        (s_wait @ t_fin # t_last # s_pass @ rest) st1
        = readLogs_loop flusher taskID step True (t_fin # t_last # s_pass @ rest) st2"
    and i2: "invar st2" and s2: "\<not> stop st2" and f2: "\<not> flushstop st2"
    and sl2: "sleeps st2 = sleeps st1 + length s_wait" and c2: "content st2 = content st1"
    and r2: "resp st2 = resp st1"
    by blast
  have u2: "undelivered st2 = undelivered st1"
    by (simp add: undelivered_def delivered_def r2 c2)
  from qf have af: "appended t_fin = []" and nff: "nofault t_fin" by (simp_all add: quiet_def)
  from fin have np: "\<not> step_panics (registry t_fin) taskID step"
    by (auto simp: step_finished_def step_panics_def split: option.splits)
  from n1 u2 af have n2: "nl \<notin> set (undelivered st2 @ appended t_fin)" by simp
  from body_eof_poll [OF i2 nff n2 f2, of flusher taskID step] np fin af
  obtain st3 where body: "readLogs_body flusher taskID step True t_fin st2 = (None, st3)"
    and i3: "invar st3" and r3: "resp st3 = resp st2" and c3: "content st3 = content st2"
    and s3: "stop st3 = stop st2" and f3: "flushstop st3" and sl3: "sleeps st3 = Suc (sleeps st2)"
    by auto
  have u3: "undelivered st3 = undelivered st2"
    by (simp add: undelivered_def delivered_def r3 c3)
  from body s2 have l3: "readLogs_loop flusher taskID step True (t_fin # t_last # s_pass @ rest) st2
      = readLogs_loop flusher taskID step True (t_last # s_pass @ rest) st3"
    by simp
  from lp have lp3: "length (units (undelivered st3 @ appended t_last)) \<le> Suc (length s_pass)"
    by (simp add: u3 u2 u1)
  from drain_stop_app [OF i3 _ _ nl qp lp3, of True flusher taskID step rest] s3 s2 f3
  obtain st' where l4: "readLogs_loop flusher taskID step True (t_last # s_pass @ rest) st3
        = (Returned None, st')"
    and r4: "resp st' = resp st3 @ emit flusher (units (undelivered st3 @ appended t_last))"
    and c4: "content st' = content st3 @ appended t_last" and sl4: "sleeps st' = sleeps st3"
    by auto
  have "resp st' = resp st @ emit flusher (units (?u @ appended t_last))"
    by (simp add: r4 r3 r2 r1 u3 u2 u1 units_append [of ?u "appended t_last"])
  with l1 l2 l3 l4 c4 c3 c2 c1 sl4 sl3 sl2 sl1 show ?thesis
    by (intro exI [of _ st']) simp
qed

lemma start_invar:
  assumes "writes w = []"
  shows "invar (start c w)" and "lines_ok (start c w)" and "\<not> stop (start c w)"
    and "\<not> flushstop (start c w)" and "undelivered (start c w) = c"
  using assms by (simp_all add: start_def invar_def lines_ok_def delivered_def undelivered_def)

lemma body_reposition:
  assumes inv: "invar st" and mode: "\<not> flushstop st"
    and rb: "ReadBytes (read_fault t) (st\<lparr>content := content st @ appended t\<rparr>) = (data, Some EOF, st1)"
    and body: "readLogs_body flusher taskID step True t st = (None, st2)"
  shows "length data \<le> pos st1 \<and> pos st2 = pos st1 - length data \<and> buf st2 = []
     \<and> pos st2 = length (delivered st2) \<and> undelivered st2 = data \<and> resp st2 = resp st
     \<and> sleeps st2 = Suc (sleeps st)"
proof -
  let ?sa = "st\<lparr>content := content st @ appended t\<rparr>"
  have ia: "invar ?sa" and da: "delivered ?sa = delivered st"
    using invar_appended [OF inv] by simp_all
  from ia have p: "pos ?sa \<le> length (content ?sa)"
    and t: "take (pos ?sa) (content ?sa) = delivered ?sa @ [] @ buf ?sa"
    by (simp_all add: invar_def)
  from rb have r: "ReadBytes_from (read_fault t) [] ?sa = (data, Some EOF, st1)"
    by (simp add: ReadBytes_def)
  have spec: "st1 = ?sa\<lparr>buf := buf st1, pos := pos st1\<rparr> \<and> pos st1 \<le> length (content ?sa) \<and>
     (case Some EOF of
        None \<Rightarrow> complete_line data \<and> take (pos st1) (content ?sa) = delivered ?sa @ data @ buf st1
      | Some EOF \<Rightarrow> \<not> read_fault t \<and> nl \<notin> set data \<and> buf st1 = [] \<and> pos st1 = length (content ?sa)
                    \<and> content ?sa = delivered ?sa @ data
      | Some ErrIO \<Rightarrow> read_fault t
      | Some ErrNotExist \<Rightarrow> False)"
    by (rule ReadBytes_from_spec [OF r p t]) simp
  from spec [unfolded option.case error.case]
  have fr: "st1 = ?sa\<lparr>buf := buf st1, pos := pos st1\<rparr>" and b1: "buf st1 = []"
    and p1: "pos st1 = length (content ?sa)" and cd: "content ?sa = delivered ?sa @ data"
    by blast+
  from fr have c1: "content st1 = content st @ appended t" and r1: "resp st1 = resp st"
    and f1: "flushstop st1 = flushstop st" and sl1: "sleeps st1 = sleeps st"
    by (metis loop_state.select_convs loop_state.surjective loop_state.update_convs)+
  from cd have "length (content ?sa) = length (delivered st) + length data"
    by (metis da length_append)
  with p1 have len: "pos st1 = length (delivered st) + length data" by simp
  from body rb mode f1
  have fields: "content st2 = content st1 \<and> resp st2 = resp st1 \<and> buf st2 = buf st1
      \<and> pos st2 = pos st1 - length data \<and> sleeps st2 = Suc (sleeps st1)"
    by (auto simp: readLogs_body_def split: option.splits if_splits)
  then have dl: "delivered st2 = delivered st" by (simp add: delivered_def r1)
  from cd have "drop (length (delivered st)) (content st @ appended t) = data"
    by (simp add: da)
  with fields have "undelivered st2 = data" by (simp add: undelivered_def dl c1)
  with fields len dl b1 r1 sl1 show ?thesis by simp
qed

section \<open>Follow mode: every byte once, in whole lines\<close>

text \<open>
  Claim C1. In follow mode, for every schedule of appends, registry states and
  failures: the delivered bytes are a prefix of the file (no byte is delivered
  twice, none is skipped); every delivered unit but the last is a complete line,
  and all of them are while the loop is still running; at a loop head the bytes
  before the descriptor's offset are the delivered bytes and the buffered ones.
  When a read then reaches the end of the file mid-line and the loop goes on to
  poll, the descriptor is moved back from the end of the file by exactly the length
  of the partial line, to the first undelivered byte, with the buffer empty: the
  next read sees the partial line again, followed by what is appended later.
\<close>

theorem follow_no_byte_twice_no_split_line:
  assumes w: "writes w = []"
    and run: "readLogs_loop flusher taskID step True sched (start c w) = (r, st)"
  shows "prefix (delivered st) (content st)
     \<and> (\<exists>n \<le> length sched. content st = c @ concat (map appended (take n sched)))
     \<and> (\<forall>u \<in> set (butlast (writes (resp st))). complete_line u)
     \<and> (r = Unfinished \<longrightarrow> (\<forall>u \<in> set (writes (resp st)). complete_line u)
           \<and> take (pos st) (content st) = delivered st @ buf st)
     \<and> (r = Unfinished \<and> \<not> flushstop st
         \<and> ReadBytes (read_fault t) (st\<lparr>content := content st @ appended t\<rparr>) = (data, Some EOF, st1)
         \<and> readLogs_body flusher taskID step True t st = (None, st2)
        \<longrightarrow> length data \<le> pos st1 \<and> pos st2 = pos st1 - length data \<and> buf st2 = []
            \<and> pos st2 = length (delivered st2) \<and> undelivered st2 = data \<and> resp st2 = resp st)"
proof -
  from loop_invariant [OF start_invar(1,2) [OF w] run]
  have ok: "lines_ok st" and pre: "prefix (delivered st) (content st)"
    and cont: "\<exists>n \<le> length sched. content st = content (start c w) @ concat (map appended (take n sched))"
    and unf: "r = Unfinished \<longrightarrow> invar st \<and> \<not> stop st"
    by blast+
  from ok have bl: "\<forall>u \<in> set (butlast (writes (resp st))). complete_line u"
    by (auto simp: lines_ok_def dest: in_set_butlastD split: if_splits)
  from ok unf have all: "r = Unfinished \<longrightarrow> (\<forall>u \<in> set (writes (resp st)). complete_line u)"
    by (simp add: lines_ok_def)
  from unf have tk: "r = Unfinished \<longrightarrow> take (pos st) (content st) = delivered st @ buf st"
    by (simp add: invar_def)
  from cont have cont': "\<exists>n \<le> length sched. content st = c @ concat (map appended (take n sched))"
    by (simp add: start_def)
  have rep: "r = Unfinished \<and> \<not> flushstop st
         \<and> ReadBytes (read_fault t) (st\<lparr>content := content st @ appended t\<rparr>) = (data, Some EOF, st1)
         \<and> readLogs_body flusher taskID step True t st = (None, st2)
        \<longrightarrow> length data \<le> pos st1 \<and> pos st2 = pos st1 - length data \<and> buf st2 = []
            \<and> pos st2 = length (delivered st2) \<and> undelivered st2 = data \<and> resp st2 = resp st"
    using unf body_reposition [of st t data st1 flusher taskID step st2] by blast
  from pre cont' bl all tk rep show ?thesis by blast
qed


lemmas eval_defs =
  readLogs_body_def ReadBytes_def ReadBytes_from.simps write_flush_def nl_def bufio_size_def
  tick_of_def tick_append_def start_def stream_headers_def

theorem follow_no_byte_twice_no_split_line_witness:
  "writes stream_headers = []
   \<and> readLogs_loop True ''t'' 0 True
        [tick_of demo_running, tick_of demo_running, tick_append ''cd'' demo_running]
        (start ''a\<newline>b'' stream_headers) = (Unfinished, demo_state)
   \<and> ReadBytes (read_fault (tick_append ''e'' demo_running))
        (demo_state\<lparr>content := content demo_state @ appended (tick_append ''e'' demo_running)\<rparr>)
       = (''bcde'', Some EOF, demo_state\<lparr>content := ''a\<newline>bcde'', pos := 6\<rparr>)
   \<and> readLogs_body True ''t'' 0 True (tick_append ''e'' demo_running) demo_state
       = (None, demo_state\<lparr>content := ''a\<newline>bcde'', sleeps := 3\<rparr>)
   \<and> prefix (delivered demo_state) (content demo_state)
   \<and> pos (demo_state\<lparr>content := ''a\<newline>bcde'', sleeps := 3\<rparr>)
       = pos (demo_state\<lparr>content := ''a\<newline>bcde'', pos := 6\<rparr>) - length ''bcde''
   \<and> undelivered (demo_state\<lparr>content := ''a\<newline>bcde'', sleeps := 3\<rparr>) = ''bcde''"
proof -
  have h1: "writes stream_headers = []" by (simp add: stream_headers_def)
  have h2: "readLogs_loop True ''t'' 0 True
        [tick_of demo_running, tick_of demo_running, tick_append ''cd'' demo_running]
        (start ''a\<newline>b'' stream_headers) = (Unfinished, demo_state)"
    by (simp add: eval_defs demo_running_def demo_state_def)
  have h3: "ReadBytes (read_fault (tick_append ''e'' demo_running))
        (demo_state\<lparr>content := content demo_state @ appended (tick_append ''e'' demo_running)\<rparr>)
       = (''bcde'', Some EOF, demo_state\<lparr>content := ''a\<newline>bcde'', pos := 6\<rparr>)"
    by (simp add: eval_defs demo_running_def demo_state_def)
  have h4: "readLogs_body True ''t'' 0 True (tick_append ''e'' demo_running) demo_state
       = (None, demo_state\<lparr>content := ''a\<newline>bcde'', sleeps := 3\<rparr>)"
    by (simp add: eval_defs demo_running_def demo_state_def)
  have h5: "\<not> flushstop demo_state" by (simp add: demo_state_def)
  from follow_no_byte_twice_no_split_line [OF h1 h2] h3 h4 h5
  have "prefix (delivered demo_state) (content demo_state)
   \<and> pos (demo_state\<lparr>content := ''a\<newline>bcde'', sleeps := 3\<rparr>)
       = pos (demo_state\<lparr>content := ''a\<newline>bcde'', pos := 6\<rparr>) - length ''bcde''
   \<and> undelivered (demo_state\<lparr>content := ''a\<newline>bcde'', sleeps := 3\<rparr>) = ''bcde''"
    by blast
  with h1 h2 h3 h4 show ?thesis by blast
qed

lemma start_headers:
  assumes "writes w = []"
  shows "invar (start c (w @ stream_headers))" and "\<not> stop (start c (w @ stream_headers))"
    and "\<not> flushstop (start c (w @ stream_headers))"
    and "undelivered (start c (w @ stream_headers)) = c"
    and "resp (start c (w @ stream_headers)) = w @ stream_headers"
    and "sleeps (start c (w @ stream_headers)) = 0"
    and "content (start c (w @ stream_headers)) = c"
  using assms
  by (simp_all add: start_def invar_def delivered_def undelivered_def stream_headers_def)

lemma readLogs_follow_run:
  assumes fs: "fs path = Inr c" and w: "writes w = []"
    and ql: "\<forall>t \<in> set s_lines. quiet t"
    and ll: "Suc (length s_lines) = length (units c)"
    and qw: "\<forall>t \<in> set s_wait. quiet t \<and> step_running (registry t) taskID step"
    and qf: "quiet t_fin" and fin: "step_finished (registry t_fin) taskID step"
    and nl: "nofault t_last" and qp: "\<forall>t \<in> set s_pass. quiet t"
    and lp: "length (units (last (units c) @ appended t_last)) \<le> Suc (length s_pass)"
  shows "readLogs fs (s_lines @ s_wait @ t_fin # t_last # s_pass @ rest) flusher taskID step path w True
     = \<lparr>calls = w @ stream_headers @ emit flusher (units (c @ appended t_last)),
        opened = [path], logged = [], polls = Suc (length s_wait), outcome = Returned None\<rparr>"
proof -
  let ?st = "start c (w @ stream_headers)"
  note s = start_headers [OF w, of c]
  from ll have ll': "Suc (length s_lines) = length (units (undelivered ?st))" by (simp add: s)
  from lp have lp': "length (units (last (units (undelivered ?st)) @ appended t_last))
      \<le> Suc (length s_pass)"
    by (simp add: s)
  from follow_run [OF s(1,2,3) ql ll' qw qf fin nl qp lp', of flusher rest]
  obtain st' where "readLogs_loop flusher taskID step True
            (s_lines @ s_wait @ t_fin # t_last # s_pass @ rest) ?st = (Returned None, st')"
    and "resp st' = resp ?st @ emit flusher (units (undelivered ?st @ appended t_last))"
    and "sleeps st' = Suc (sleeps ?st + length s_wait)"
    by blast
  then show ?thesis by (simp add: readLogs_def fs s)
qed

lemma readLogs_nonfollow_run:
  assumes fs: "fs path = Inr c" and w: "writes w = []"
    and q: "\<forall>t \<in> set sched. quiet t" and len: "length (units c) \<le> length sched"
  shows "readLogs fs (sched @ rest) flusher taskID step path w False
     = \<lparr>calls = w @ stream_headers @ emit flusher (units c),
        opened = [path], logged = [], polls = 0, outcome = Returned None\<rparr>"
proof -
  let ?st = "start c (w @ stream_headers)"
  note s = start_headers [OF w, of c]
  from len have len': "length (units (undelivered ?st)) \<le> length sched" by (simp add: s)
  from drain_stop [OF s(1,2) _ q len', of False flusher taskID step rest]
  obtain st' where "readLogs_loop flusher taskID step False (sched @ rest) ?st = (Returned None, st')"
    and "resp st' = resp ?st @ emit flusher (units (undelivered ?st))"
    and "sleeps st' = sleeps ?st"
    by auto
  then show ?thesis by (simp add: readLogs_def fs s)
qed

lemma body_nonfollow_registry:
  "readLogs_body flusher taskID1 step1 False t st
     = readLogs_body flusher taskID2 step2 False (t\<lparr>registry := reg\<rparr>) st"
  by (simp add: readLogs_body_def write_flush_def split: prod.splits option.splits)

lemma loop_nonfollow_registry:
  "map forget_registry s1 = map forget_registry s2
    \<Longrightarrow> readLogs_loop flusher taskID1 step1 False s1 st
        = readLogs_loop flusher taskID2 step2 False s2 st"
proof (induction s1 arbitrary: s2 st)
  case Nil
  then show ?case by simp
next
  case (Cons t ts)
  then obtain t' ts' where s2: "s2 = t' # ts'" and t: "forget_registry t = forget_registry t'"
    and ts: "map forget_registry ts = map forget_registry ts'"
    by (cases s2) auto
  have "readLogs_body flusher taskID1 step1 False t st
      = readLogs_body flusher taskID2 step2 False (forget_registry t) st"
    unfolding forget_registry_def by (rule body_nonfollow_registry)
  also have "\<dots> = readLogs_body flusher taskID2 step2 False (forget_registry t') st"
    by (simp only: t)
  also have "\<dots> = readLogs_body flusher taskID2 step2 False t' st"
    unfolding forget_registry_def by (rule body_nonfollow_registry [symmetric])
  finally have b: "readLogs_body flusher taskID1 step1 False t st
      = readLogs_body flusher taskID2 step2 False t' st" .
  show ?case
    unfolding s2 using Cons.IH [OF ts] b
    by (simp split: prod.splits option.splits)
qed

section \<open>Follow mode: flush and stop\<close>


lemmas units_eval = units.simps first_line_def after_line_def nl_def


section \<open>Follow mode: termination once the step is finished\<close>

text \<open>
  Claim C4. A follow-mode read of a file that receives no append, with no failure,
  where every poll finds no handle for the task or the step finished: the loop
  returns \<^verbatim>\<open>nil\<close> within one iteration for each complete line of the file and two
  more (whatever the schedule holds after these is never met), it has slept for
  exactly one poll interval, and the units written are the units of the file, whose
  concatenation is the file: no byte is dropped or written twice.
\<close>

theorem follow_finished_terminates:
  assumes fs: "fs path = Inr c" and w: "writes w = []"
    and q: "\<forall>t \<in> set sched. quiet t \<and> step_finished (registry t) taskID step"
    and len: "length sched = Suc (length (units c))"
  shows "outcome (readLogs fs (sched @ rest) flusher taskID step path w True) = Returned None
     \<and> polls (readLogs fs (sched @ rest) flusher taskID step path w True) = 1
     \<and> writes (calls (readLogs fs (sched @ rest) flusher taskID step path w True)) = units c
     \<and> concat (writes (calls (readLogs fs (sched @ rest) flusher taskID step path w True))) = c"
proof -
  from len have "sched \<noteq> []" by auto
  then obtain ys t_last where s1: "sched = ys @ [t_last]" by (cases sched rule: rev_cases) auto
  with len units_not_Nil [of c] have "ys \<noteq> []" by (cases "units c") auto
  then obtain s_lines t_fin where s2: "ys = s_lines @ [t_fin]" by (cases ys rule: rev_cases) auto
  from s1 s2 have sched: "sched = s_lines @ [] @ t_fin # t_last # [] @ []" by simp
  from len sched have ll: "Suc (length s_lines) = length (units c)" by simp
  from q sched have ql: "\<forall>t \<in> set s_lines. quiet t" and qf: "quiet t_fin"
    and fin: "step_finished (registry t_fin) taskID step" and qt: "quiet t_last"
    by simp_all
  from qt have nf: "nofault t_last" and a: "appended t_last = []" by (simp_all add: quiet_def)
  have qw: "\<forall>t \<in> set []. quiet t \<and> step_running (registry t) taskID step" by simp
  have qp: "\<forall>t \<in> set []. quiet t" by simp
  from units_shape [of c] have "nl \<notin> set (last (units c))" by simp
  then have lp: "length (units (last (units c) @ appended t_last)) \<le> Suc (length ([] :: tick list))"
    by (simp add: a units_nonl)
  have "sched @ rest = s_lines @ [] @ t_fin # t_last # [] @ rest" using sched by simp
  with readLogs_follow_run [where fs = fs and path = path and rest = rest and flusher = flusher,
      OF fs w ql ll qw qf fin nf qp lp]
  have "readLogs fs (sched @ rest) flusher taskID step path w True
     = \<lparr>calls = w @ stream_headers @ emit flusher (units c),
        opened = [path], logged = [], polls = Suc 0, outcome = Returned None\<rparr>"
    by (simp add: a)
  then show ?thesis using w by (simp add: stream_headers_def concat_units)
qed

theorem follow_finished_terminates_witness:
  "one_file ''log'' ''a\<newline>b\<newline>c'' ''log'' = Inr ''a\<newline>b\<newline>c''
   \<and> writes stream_headers = []
   \<and> quiet (tick_of demo_finished) \<and> step_finished (registry (tick_of demo_finished)) ''t'' 0
   \<and> quiet (tick_of []) \<and> step_finished (registry (tick_of [])) ''t'' 0
   \<and> length [tick_of demo_finished, tick_of [], tick_of demo_finished, tick_of []]
       = Suc (length (units ''a\<newline>b\<newline>c''))
   \<and> outcome (readLogs (one_file ''log'' ''a\<newline>b\<newline>c'')
        ([tick_of demo_finished, tick_of [], tick_of demo_finished, tick_of []]
           @ [tick_append ''late'' demo_running])
        True ''t'' 0 ''log'' stream_headers True) = Returned None
   \<and> polls (readLogs (one_file ''log'' ''a\<newline>b\<newline>c'')
        ([tick_of demo_finished, tick_of [], tick_of demo_finished, tick_of []]
           @ [tick_append ''late'' demo_running])
        True ''t'' 0 ''log'' stream_headers True) = 1
   \<and> concat (writes (calls (readLogs (one_file ''log'' ''a\<newline>b\<newline>c'')
        ([tick_of demo_finished, tick_of [], tick_of demo_finished, tick_of []]
           @ [tick_append ''late'' demo_running])
        True ''t'' 0 ''log'' stream_headers True))) = ''a\<newline>b\<newline>c''"
proof -
  have u: "units ''a\<newline>b\<newline>c'' = [''a\<newline>'', ''b\<newline>'', ''c'']"
    by (simp add: units_eval)
  have h1: "one_file ''log'' ''a\<newline>b\<newline>c'' ''log'' = Inr ''a\<newline>b\<newline>c''"
    by (simp add: one_file_def)
  have h2: "writes stream_headers = []" by (simp add: stream_headers_def)
  have h3: "\<forall>t \<in> set [tick_of demo_finished, tick_of [], tick_of demo_finished, tick_of []].
         quiet t \<and> step_finished (registry t) ''t'' 0"
    by (simp add: quiet_def nofault_def tick_of_def step_finished_def demo_finished_def)
  have h4: "length [tick_of demo_finished, tick_of [], tick_of demo_finished, tick_of []]
       = Suc (length (units ''a\<newline>b\<newline>c''))"
    by (simp add: u)
  from follow_finished_terminates [where fs = "one_file ''log'' ''a\<newline>b\<newline>c''"
      and path = "''log''" and rest = "[tick_append ''late'' demo_running]" and flusher = True,
      OF h1 h2 h3 h4]
  have "outcome (readLogs (one_file ''log'' ''a\<newline>b\<newline>c'')
        ([tick_of demo_finished, tick_of [], tick_of demo_finished, tick_of []]
           @ [tick_append ''late'' demo_running])
        True ''t'' 0 ''log'' stream_headers True) = Returned None
   \<and> polls (readLogs (one_file ''log'' ''a\<newline>b\<newline>c'')
        ([tick_of demo_finished, tick_of [], tick_of demo_finished, tick_of []]
           @ [tick_append ''late'' demo_running])
        True ''t'' 0 ''log'' stream_headers True) = 1
   \<and> concat (writes (calls (readLogs (one_file ''log'' ''a\<newline>b\<newline>c'')
        ([tick_of demo_finished, tick_of [], tick_of demo_finished, tick_of []]
           @ [tick_append ''late'' demo_running])
        True ''t'' 0 ''log'' stream_headers True))) = ''a\<newline>b\<newline>c''"
    by blast
  moreover have "quiet (tick_of demo_finished)" by (simp add: quiet_def nofault_def tick_of_def)
  moreover have "quiet (tick_of [])" by (simp add: quiet_def nofault_def tick_of_def)
  moreover have "step_finished (registry (tick_of demo_finished)) ''t'' 0"
    by (simp add: tick_of_def step_finished_def demo_finished_def)
  moreover have "step_finished (registry (tick_of [])) ''t'' 0"
    by (simp add: tick_of_def step_finished_def)
  ultimately show ?thesis using h1 h2 h4 by blast
qed

section \<open>Non-follow mode\<close>

text \<open>
  Claim C3, as stated, fails: on the file \<^verbatim>\<open>"a\nb\nc"\<close> a non-follow read writes the
  partial line \<^verbatim>\<open>"c"\<close> to the sink before it returns.
\<close>

theorem nonfollow_partial_line_counterexample:
  "outcome (readLogs (one_file ''log'' ''a\<newline>b\<newline>c'') [tick_of [], tick_of [], tick_of []]
        True ''t'' 0 ''log'' stream_headers False) = Returned None
   \<and> writes (calls (readLogs (one_file ''log'' ''a\<newline>b\<newline>c'') [tick_of [], tick_of [], tick_of []]
        True ''t'' 0 ''log'' stream_headers False)) = [''a\<newline>'', ''b\<newline>'', ''c'']
   \<and> \<not> complete_line ''c''"
  by (simp add: readLogs_def one_file_def eval_defs complete_line_def)

text \<open>
  Claim C3, amended. In non-follow mode, on a file made of the complete lines \<open>ls\<close>
  followed by the partial line \<open>p\<close> (no delimiter; possibly empty), with no failure:
  the reader writes each complete line, and on reaching the end of the file it
  writes the partial line as well (flushing after each write when the writer is a
  flusher), then returns \<^verbatim>\<open>nil\<close>; it never sleeps and never consults the registry.
\<close>

theorem nonfollow_delivers_partial_line:
  assumes fs: "fs path = Inr (concat ls @ p)" and w: "writes w = []"
    and ls: "\<forall>l \<in> set ls. complete_line l" and p: "nl \<notin> set p"
    and q: "\<forall>t \<in> set sched. quiet t" and len: "length ls < length sched"
  shows "readLogs fs (sched @ rest) flusher taskID step path w False
     = \<lparr>calls = w @ stream_headers @ emit flusher (ls @ [p]),
        opened = [path], logged = [], polls = 0, outcome = Returned None\<rparr>"
proof -
  have u: "units (concat ls @ p) = ls @ [p]" using ls p by (rule units_explicit)
  with len have "length (units (concat ls @ p)) \<le> length sched" by simp
  from readLogs_nonfollow_run [where fs = fs and path = path, OF fs w q this] u
  show ?thesis by simp
qed

theorem nonfollow_delivers_partial_line_witness:
  "one_file ''log'' ''a\<newline>b\<newline>c'' ''log'' = Inr (concat [''a\<newline>'', ''b\<newline>''] @ ''c'')
   \<and> writes stream_headers = []
   \<and> complete_line ''a\<newline>'' \<and> complete_line ''b\<newline>'' \<and> nl \<notin> set ''c''
   \<and> quiet (tick_of [])
   \<and> length [''a\<newline>'', ''b\<newline>''] < length [tick_of [], tick_of [], tick_of []]
   \<and> readLogs (one_file ''log'' ''a\<newline>b\<newline>c'') ([tick_of [], tick_of [], tick_of []] @ [])
        False ''t'' 0 ''log'' stream_headers False
     = \<lparr>calls = stream_headers @ stream_headers @ [Write ''a\<newline>'', Write ''b\<newline>'', Write ''c''],
        opened = [''log''], logged = [], polls = 0, outcome = Returned None\<rparr>"
proof -
  have h1: "one_file ''log'' ''a\<newline>b\<newline>c'' ''log'' = Inr (concat [''a\<newline>'', ''b\<newline>''] @ ''c'')"
    by (simp add: one_file_def)
  have h2: "writes stream_headers = []" by (simp add: stream_headers_def)
  have h3: "\<forall>l \<in> set [''a\<newline>'', ''b\<newline>'']. complete_line l"
    by (simp add: complete_line_def nl_def)
  have h4: "nl \<notin> set ''c''" by (simp add: nl_def)
  have h5: "\<forall>t \<in> set [tick_of [], tick_of [], tick_of []]. quiet t"
    by (simp add: quiet_def nofault_def tick_of_def)
  have h6: "length [''a\<newline>'', ''b\<newline>''] < length [tick_of [], tick_of [], tick_of []]"
    by simp
  from nonfollow_delivers_partial_line [where fs = "one_file ''log'' ''a\<newline>b\<newline>c''"
      and path = "''log''" and rest = "[]" and flusher = False and taskID = "''t''" and step = 0,
      OF h1 h2 h3 h4 h5 h6]
  have "readLogs (one_file ''log'' ''a\<newline>b\<newline>c'') ([tick_of [], tick_of [], tick_of []] @ [])
        False ''t'' 0 ''log'' stream_headers False
     = \<lparr>calls = stream_headers @ stream_headers @ [Write ''a\<newline>'', Write ''b\<newline>'', Write ''c''],
        opened = [''log''], logged = [], polls = 0, outcome = Returned None\<rparr>"
    by simp
  moreover have "complete_line ''a\<newline>''" and "complete_line ''b\<newline>''"
    by (simp_all add: complete_line_def nl_def)
  moreover have "quiet (tick_of [])" by (simp add: quiet_def nofault_def tick_of_def)
  ultimately show ?thesis using h1 h2 h4 h6 by blast
qed

text \<open>
  Claim C9. A non-follow read does not depend on the registry, the task id or the
  step: two schedules that differ in their registries only give the same result.
  And two non-follow reads of the same file with no append and no failure give the
  same calls on the writer, the same outcome and no sleep, whatever the two
  registries, task ids and steps are (reading does not change the file system).
\<close>

theorem nonfollow_idempotent_registry_free:
  "(map forget_registry s1 = map forget_registry s2 \<longrightarrow>
      readLogs fs s1 flusher taskID1 step1 path w False
        = readLogs fs s2 flusher taskID2 step2 path w False)
   \<and> (fs path = Inr c \<and> writes w = [] \<and> (\<forall>t \<in> set s1. quiet t) \<and> (\<forall>t \<in> set s2. quiet t)
        \<and> length (units c) \<le> length s1 \<and> length (units c) \<le> length s2 \<longrightarrow>
      readLogs fs s1 flusher taskID1 step1 path w False
        = readLogs fs s2 flusher taskID2 step2 path w False)"
proof (intro conjI impI)
  assume "map forget_registry s1 = map forget_registry s2"
  then have "readLogs_loop flusher taskID1 step1 False s1 st
        = readLogs_loop flusher taskID2 step2 False s2 st" for st
    by (rule loop_nonfollow_registry)
  then show "readLogs fs s1 flusher taskID1 step1 path w False
        = readLogs fs s2 flusher taskID2 step2 path w False"
    by (simp add: readLogs_def split: sum.splits)
next
  assume a: "fs path = Inr c \<and> writes w = [] \<and> (\<forall>t \<in> set s1. quiet t) \<and> (\<forall>t \<in> set s2. quiet t)
        \<and> length (units c) \<le> length s1 \<and> length (units c) \<le> length s2"
  then have fs: "fs path = Inr c" and w: "writes w = []" and q1: "\<forall>t \<in> set s1. quiet t"
    and q2: "\<forall>t \<in> set s2. quiet t" and l1: "length (units c) \<le> length s1"
    and l2: "length (units c) \<le> length s2"
    by blast+
  from readLogs_nonfollow_run [where fs = fs and path = path and rest = "[]" and flusher = flusher
        and taskID = taskID1 and step = step1, OF fs w q1 l1]
    readLogs_nonfollow_run [where fs = fs and path = path and rest = "[]" and flusher = flusher
        and taskID = taskID2 and step = step2, OF fs w q2 l2]
  show "readLogs fs s1 flusher taskID1 step1 path w False
        = readLogs fs s2 flusher taskID2 step2 path w False"
    by simp
qed

theorem nonfollow_idempotent_registry_free_witness:
  "map forget_registry [tick_of demo_running, tick_of demo_finished, tick_of []]
     = map forget_registry [tick_of [], tick_of [], tick_of demo_running]
   \<and> one_file ''log'' ''a\<newline>b\<newline>c'' ''log'' = Inr ''a\<newline>b\<newline>c''
   \<and> writes stream_headers = []
   \<and> quiet (tick_of demo_running) \<and> quiet (tick_of demo_finished) \<and> quiet (tick_of [])
   \<and> length (units ''a\<newline>b\<newline>c'') \<le> length [tick_of demo_running, tick_of demo_finished, tick_of []]
   \<and> length (units ''a\<newline>b\<newline>c'') \<le> length [tick_of [], tick_of [], tick_of demo_running]
   \<and> readLogs (one_file ''log'' ''a\<newline>b\<newline>c'')
        [tick_of demo_running, tick_of demo_finished, tick_of []] True ''t'' 0 ''log'' stream_headers False
     = readLogs (one_file ''log'' ''a\<newline>b\<newline>c'')
        [tick_of [], tick_of [], tick_of demo_running] True ''u'' 7 ''log'' stream_headers False"
proof -
  have u: "units ''a\<newline>b\<newline>c'' = [''a\<newline>'', ''b\<newline>'', ''c'']"
    by (simp add: units_eval)
  have h0: "map forget_registry [tick_of demo_running, tick_of demo_finished, tick_of []]
     = map forget_registry [tick_of [], tick_of [], tick_of demo_running]"
    by (simp add: forget_registry_def tick_of_def)
  have h1: "one_file ''log'' ''a\<newline>b\<newline>c'' ''log'' = Inr ''a\<newline>b\<newline>c''"
    by (simp add: one_file_def)
  have h2: "writes stream_headers = []" by (simp add: stream_headers_def)
  have h3: "\<forall>t \<in> set [tick_of demo_running, tick_of demo_finished, tick_of []]. quiet t"
    by (simp add: quiet_def nofault_def tick_of_def)
  have h4: "\<forall>t \<in> set [tick_of [], tick_of [], tick_of demo_running]. quiet t"
    by (simp add: quiet_def nofault_def tick_of_def)
  have h5: "length (units ''a\<newline>b\<newline>c'') \<le> length [tick_of demo_running, tick_of demo_finished, tick_of []]"
    by (simp add: u)
  have h6: "length (units ''a\<newline>b\<newline>c'') \<le> length [tick_of [], tick_of [], tick_of demo_running]"
    by (simp add: u)
  from nonfollow_idempotent_registry_free [where fs = "one_file ''log'' ''a\<newline>b\<newline>c''"
      and path = "''log''" and c = "''a\<newline>b\<newline>c''" and w = stream_headers
      and ?s1.0 = "[tick_of demo_running, tick_of demo_finished, tick_of []]"
      and ?s2.0 = "[tick_of [], tick_of [], tick_of demo_running]"
      and flusher = True and ?taskID1.0 = "''t''" and ?step1.0 = 0
      and ?taskID2.0 = "''u''" and ?step2.0 = 7]
    h1 h2 h3 h4 h5 h6
  have "readLogs (one_file ''log'' ''a\<newline>b\<newline>c'')
        [tick_of demo_running, tick_of demo_finished, tick_of []] True ''t'' 0 ''log'' stream_headers False
     = readLogs (one_file ''log'' ''a\<newline>b\<newline>c'')
        [tick_of [], tick_of [], tick_of demo_running] True ''u'' 7 ''log'' stream_headers False"
    by blast
  moreover have "quiet (tick_of demo_running)" and "quiet (tick_of demo_finished)"
    and "quiet (tick_of [])"
    by (simp_all add: quiet_def nofault_def tick_of_def)
  ultimately show ?thesis using h0 h1 h2 h5 h6 by blast
qed

lemma Get_missing: "map_of q k = None \<Longrightarrow> Get q k = []"
  by (simp add: Get_def)

lemma Atoi_Nil: "Atoi [] = None"
  by (simp add: Atoi_def)




lemma logs_valid:
  assumes "Get (query r) ''taskid'' = taskID" and "taskID \<noteq> []"
    and "Atoi (Get (query r) ''step'') = Some step"
  shows "logsHandler_ServeHTTP e fs sched flusher r =
     (let res = readLogs fs sched flusher taskID step (logPath e taskID step) stream_headers
                  (map_of (query r) ''follow'' \<noteq> None)
      in case outcome res of
           Returned (Some err) \<Rightarrow> res\<lparr>logged := [err], outcome := Returned None\<rparr>
         | _ \<Rightarrow> res)"
proof -
  from assms(3) have "Get (query r) ''step'' \<noteq> []" by (auto simp: Atoi_Nil)
  with assms show ?thesis
    by (simp add: logsHandler_ServeHTTP_def readTaskLogs_def Let_def)
qed


section \<open>The endpoints: parameter validation\<close>

text \<open>
  Claim C6. A log or archive request in which \<^verbatim>\<open>taskid\<close> is omitted or empty, \<^verbatim>\<open>step\<close>
  is omitted or empty, or \<^verbatim>\<open>step\<close> does not parse as an integer: the handler's only
  call after the fixed headers is \<^verbatim>\<open>http.Error\<close> with status 400, it returns, and it
  opens no file (no path is resolved, nothing is read).
\<close>

theorem missing_parameter_is_bad_request:
  assumes "map_of (query r) ''taskid'' = None \<or> Get (query r) ''taskid'' = []
      \<or> map_of (query r) ''step'' = None \<or> Get (query r) ''step'' = []
      \<or> Atoi (Get (query r) ''step'') = None"
  shows "logsHandler_ServeHTTP e fs sched flusher r
       = \<lparr>calls = stream_headers @ [HttpError [] 400], opened = [], logged = [], polls = 0,
          outcome = Returned None\<rparr>
     \<and> archivesHandler_ServeHTTP e fs copy_fault r
       = \<lparr>calls = [HttpError [] 400], opened = [], logged = [], polls = 0,
          outcome = Returned None\<rparr>"
proof -
  from assms have "Get (query r) ''taskid'' = [] \<or> Get (query r) ''step'' = []
      \<or> Atoi (Get (query r) ''step'') = None"
    by (auto simp: Get_missing)
  then show ?thesis
    by (auto simp: logsHandler_ServeHTTP_def archivesHandler_ServeHTTP_def bad_request_def Let_def)
qed

theorem missing_parameter_is_bad_request_witness:
  "map_of (query \<lparr>query = [(''step'', [''3''])]\<rparr>) ''taskid'' = None
   \<and> Atoi (Get (query \<lparr>query = [(''taskid'', [''t'']), (''step'', [''3x''])]\<rparr>) ''step'') = None
   \<and> logsHandler_ServeHTTP demo_executor (one_file ''logs/t'' ''x'') [tick_of []] True
        \<lparr>query = [(''step'', [''3''])]\<rparr>
       = \<lparr>calls = stream_headers @ [HttpError [] 400], opened = [], logged = [], polls = 0,
          outcome = Returned None\<rparr>
   \<and> archivesHandler_ServeHTTP demo_executor (one_file ''archives/t'' ''x'') None
        \<lparr>query = [(''taskid'', [''t'']), (''step'', [''3x''])]\<rparr>
       = \<lparr>calls = [HttpError [] 400], opened = [], logged = [], polls = 0,
          outcome = Returned None\<rparr>"
proof -
  have h1: "map_of (query \<lparr>query = [(''step'', [''3''])]\<rparr>) ''taskid'' = None" by simp
  have h2: "Atoi (Get (query \<lparr>query = [(''taskid'', [''t'']), (''step'', [''3x''])]\<rparr>) ''step'') = None"
    by (simp add: Atoi_def Get_def)
  from missing_parameter_is_bad_request [where r = "\<lparr>query = [(''step'', [''3''])]\<rparr>"
      and e = demo_executor and fs = "one_file ''logs/t'' ''x''" and sched = "[tick_of []]"
      and flusher = True] h1
  have a: "logsHandler_ServeHTTP demo_executor (one_file ''logs/t'' ''x'') [tick_of []] True
        \<lparr>query = [(''step'', [''3''])]\<rparr>
       = \<lparr>calls = stream_headers @ [HttpError [] 400], opened = [], logged = [], polls = 0,
          outcome = Returned None\<rparr>"
    by blast
  from missing_parameter_is_bad_request
      [where r = "\<lparr>query = [(''taskid'', [''t'']), (''step'', [''3x''])]\<rparr>"
      and e = demo_executor and fs = "one_file ''archives/t'' ''x''" and copy_fault = None] h2
  have b: "archivesHandler_ServeHTTP demo_executor (one_file ''archives/t'' ''x'') None
        \<lparr>query = [(''taskid'', [''t'']), (''step'', [''3x''])]\<rparr>
       = \<lparr>calls = [HttpError [] 400], opened = [], logged = [], polls = 0,
          outcome = Returned None\<rparr>"
    by blast
  from h1 h2 a b show ?thesis by blast
qed

section \<open>The archive endpoint\<close>



section \<open>The submission endpoint\<close>

text \<open>
  Claim C8. When the body does not decode, the handler calls \<^verbatim>\<open>http.Error\<close> with
  status 500 and returns with nothing sent on the channel. When it decodes, the
  handler sends the decoded task on the channel and makes no call on the response
  writer; it returns once the channel has taken the task, and stays blocked in the
  send when the channel never does.
\<close>

theorem submission_decode_failure_is_500:
  "(Decode body = Inl err \<longrightarrow>
      taskSubmissionHandler_ServeHTTP Decode accepts body
        = \<lparr>reply = [HttpError [] 500], queued = [], ended = Returned None\<rparr>)
   \<and> (Decode body = Inr et \<and> accepts \<longrightarrow>
      taskSubmissionHandler_ServeHTTP Decode accepts body
        = \<lparr>reply = [], queued = [et], ended = Returned None\<rparr>)
   \<and> (Decode body = Inr et \<and> \<not> accepts \<longrightarrow>
      taskSubmissionHandler_ServeHTTP Decode accepts body
        = \<lparr>reply = [], queued = [], ended = Blocked\<rparr>)"
  by (simp add: taskSubmissionHandler_ServeHTTP_def)

theorem submission_decode_failure_is_500_witness:
  "demo_Decode ''oops'' = Inl ErrIO
   \<and> taskSubmissionHandler_ServeHTTP demo_Decode True ''oops''
        = \<lparr>reply = [HttpError [] 500], queued = [], ended = Returned None\<rparr>
   \<and> demo_Decode ''{}'' = Inr ''{}''
   \<and> taskSubmissionHandler_ServeHTTP demo_Decode True ''{}''
        = \<lparr>reply = [], queued = [''{}''], ended = Returned None\<rparr>
   \<and> taskSubmissionHandler_ServeHTTP demo_Decode False ''{}''
        = \<lparr>reply = [], queued = [], ended = Blocked\<rparr>"
proof -
  have h1: "demo_Decode ''oops'' = Inl ErrIO" by (simp add: demo_Decode_def)
  have h2: "demo_Decode ''{}'' = Inr ''{}''" by (simp add: demo_Decode_def)
  from submission_decode_failure_is_500 [of demo_Decode "''oops''" ErrIO True] h1
  have a: "taskSubmissionHandler_ServeHTTP demo_Decode True ''oops''
        = \<lparr>reply = [HttpError [] 500], queued = [], ended = Returned None\<rparr>"
    by blast
  from submission_decode_failure_is_500 [of demo_Decode "''{}''" _ True "''{}''"] h2
  have b: "taskSubmissionHandler_ServeHTTP demo_Decode True ''{}''
        = \<lparr>reply = [], queued = [''{}''], ended = Returned None\<rparr>"
    by blast
  from submission_decode_failure_is_500 [of demo_Decode "''{}''" _ False "''{}''"] h2
  have c: "taskSubmissionHandler_ServeHTTP demo_Decode False ''{}''
        = \<lparr>reply = [], queued = [], ended = Blocked\<rparr>"
    by blast
  from h1 h2 a b c show ?thesis by blast
qed

section \<open>Negative step indices\<close>




section \<open>The phase check indexes Steps without a bounds check\<close>

lemma loop_reaches_phase_check:
  assumes w: "writes w = []"
    and ql: "\<forall>t \<in> set s_lines. quiet t" and ll: "Suc (length s_lines) = length (units c)"
    and qt: "quiet t"
  shows "(step_panics (registry t) taskID step \<longrightarrow>
          fst (readLogs_loop flusher taskID step True (s_lines @ t # rest) (start c (w @ stream_headers)))
            = Panicked)
     \<and> (\<not> step_panics (registry t) taskID step \<longrightarrow>
          fst (readLogs_loop flusher taskID step True (s_lines @ [t]) (start c (w @ stream_headers)))
            = Unfinished)"
proof -
  let ?st = "start c (w @ stream_headers)"
  note s = start_headers [OF w, of c]
  from ll have ll': "Suc (length s_lines) = length (units (undelivered ?st))" by (simp add: s)
  from qt have a: "appended t = []" and nf: "nofault t" by (simp_all add: quiet_def)
  have step: "\<exists>st1 st'. readLogs_loop flusher taskID step True (s_lines @ t # rs) ?st
        = readLogs_loop flusher taskID step True (t # rs) st1 \<and> \<not> stop st1
      \<and> readLogs_body flusher taskID step True t st1
        = (if step_panics (registry t) taskID step then Some Panicked else None, st')
      \<and> stop st' = stop st1" for rs
  proof -
    from drain_lines [OF s(1,2) ql ll', of flusher taskID step True "t # rs"]
    obtain st1 where l1: "readLogs_loop flusher taskID step True (s_lines @ t # rs) ?st
          = readLogs_loop flusher taskID step True (t # rs) st1"
      and i1: "invar st1" and s1: "\<not> stop st1" and f1: "flushstop st1 = flushstop ?st"
      and u1: "undelivered st1 = last (units (undelivered ?st))"
      by blast
    from units_shape [of "undelivered ?st"] u1 a
    have n1: "nl \<notin> set (undelivered st1 @ appended t)" by simp
    from f1 s(3) have f1': "\<not> flushstop st1" by simp
    from body_eof_poll [OF i1 nf n1 f1', of flusher taskID step]
    obtain st' where "readLogs_body flusher taskID step True t st1
        = (if step_panics (registry t) taskID step then Some Panicked else None, st')"
      and "stop st' = stop st1"
      by blast
    with l1 s1 show ?thesis by blast
  qed
  have A: "step_panics (registry t) taskID step \<Longrightarrow>
      fst (readLogs_loop flusher taskID step True (s_lines @ t # rest) ?st) = Panicked"
  proof -
    assume p: "step_panics (registry t) taskID step"
    from step [of rest] p obtain st1 st' where
      "readLogs_loop flusher taskID step True (s_lines @ t # rest) ?st
        = readLogs_loop flusher taskID step True (t # rest) st1"
      and "\<not> stop st1"
      and "readLogs_body flusher taskID step True t st1 = (Some Panicked, st')"
      by auto
    then show ?thesis by simp
  qed
  have B: "\<not> step_panics (registry t) taskID step \<Longrightarrow>
      fst (readLogs_loop flusher taskID step True (s_lines @ [t]) ?st) = Unfinished"
  proof -
    assume p: "\<not> step_panics (registry t) taskID step"
    from step [of "[]"] p obtain st1 st' where
      "readLogs_loop flusher taskID step True (s_lines @ [t]) ?st
        = readLogs_loop flusher taskID step True [t] st1"
      and "\<not> stop st1"
      and "readLogs_body flusher taskID step True t st1 = (None, st')"
      and "stop st' = stop st1"
      by auto
    then show ?thesis by simp
  qed
  from A B show ?thesis by simp
qed

text \<open>
  Claim C10. A follow request with valid parameters (\<^verbatim>\<open>step\<close> parses as an integer,
  nothing more is checked) reads the lines of the log and reaches the phase check
  with a handle present for the task. The handler then panics exactly when \<open>step\<close>
  is not an index into the handle's steps (negative, or at least their number): the
  access is in bounds only under that precondition, which the endpoint does not
  establish. Whatever follows in the schedule, an index out of range panics.
\<close>

theorem steps_index_unguarded:
  assumes "Get (query r) ''taskid'' = taskID" and "taskID \<noteq> []"
    and "Atoi (Get (query r) ''step'') = Some step"
    and fo: "map_of (query r) ''follow'' \<noteq> None"
    and fs: "fs (logPath e taskID step) = Inr c"
    and ql: "\<forall>t \<in> set s_lines. quiet t" and ll: "Suc (length s_lines) = length (units c)"
    and qt: "quiet t" and rt: "map_of (registry t) taskID = Some rt"
  shows "(outcome (logsHandler_ServeHTTP e fs (s_lines @ [t]) flusher r) = Panicked
          \<longleftrightarrow> step < 0 \<or> int (length (Steps rt)) \<le> step)
     \<and> (step < 0 \<or> int (length (Steps rt)) \<le> step \<longrightarrow>
          outcome (logsHandler_ServeHTTP e fs (s_lines @ t # rest) flusher r) = Panicked)"
proof -
  have w: "writes stream_headers = []" by (simp add: stream_headers_def)
  from rt have p: "step_panics (registry t) taskID step \<longleftrightarrow> step < 0 \<or> int (length (Steps rt)) \<le> step"
    by (simp add: step_panics_def)
  have out: "outcome (logsHandler_ServeHTTP e fs sched flusher r) = Panicked
      \<longleftrightarrow> fst (readLogs_loop flusher taskID step True sched (start c (stream_headers @ stream_headers)))
            = Panicked" for sched
    unfolding logs_valid [OF assms(1-3)] using fo fs
    by (simp add: readLogs_def Let_def split: prod.splits outcome.splits option.splits)
  from loop_reaches_phase_check [OF w ql ll qt, where flusher = flusher and taskID = taskID
        and step = step and rest = "[]"]
    loop_reaches_phase_check [OF w ql ll qt, where flusher = flusher and taskID = taskID
        and step = step and rest = rest]
  show ?thesis
    unfolding out p [symmetric] by (auto split: if_splits)
qed

theorem steps_index_unguarded_witness:
  "Get (query (demo_request ''5'')) ''taskid'' = ''t'' \<and> ''t'' \<noteq> []
   \<and> Atoi (Get (query (demo_request ''5'')) ''step'') = Some 5
   \<and> map_of (query (demo_request ''5'')) ''follow'' \<noteq> None
   \<and> one_file ''logs/t'' ''x'' (logPath demo_executor ''t'' 5) = Inr ''x''
   \<and> Suc (length ([] :: tick list)) = length (units ''x'')
   \<and> quiet (tick_of demo_running)
   \<and> map_of (registry (tick_of demo_running)) ''t'' = Some \<lparr>Steps = [PhaseRunning]\<rparr>
   \<and> int (length (Steps \<lparr>Steps = [PhaseRunning]\<rparr>)) \<le> 5
   \<and> outcome (logsHandler_ServeHTTP demo_executor (one_file ''logs/t'' ''x'')
        ([] @ [tick_of demo_running]) True (demo_request ''5'')) = Panicked"
proof -
  have h1: "Get (query (demo_request ''5'')) ''taskid'' = ''t''"
    by (simp add: demo_request_def Get_def)
  have h2: "''t'' \<noteq> []" by simp
  have h3: "Atoi (Get (query (demo_request ''5'')) ''step'') = Some 5"
    by (simp add: demo_request_def Get_def Atoi_def)
  have h4: "map_of (query (demo_request ''5'')) ''follow'' \<noteq> None"
    by (simp add: demo_request_def)
  have h5: "one_file ''logs/t'' ''x'' (logPath demo_executor ''t'' 5) = Inr ''x''"
    by (simp add: one_file_def demo_executor_def demo_logPath_def)
  have h6: "\<forall>t \<in> set []. quiet t" by simp
  have h7: "Suc (length ([] :: tick list)) = length (units ''x'')" by (simp add: units_eval)
  have h8: "quiet (tick_of demo_running)" by (simp add: quiet_def nofault_def tick_of_def)
  have h9: "map_of (registry (tick_of demo_running)) ''t'' = Some \<lparr>Steps = [PhaseRunning]\<rparr>"
    by (simp add: tick_of_def demo_running_def)
  have h10: "int (length (Steps \<lparr>Steps = [PhaseRunning]\<rparr>)) \<le> 5" by simp
  from steps_index_unguarded [where fs = "one_file ''logs/t'' ''x''" and e = demo_executor
      and flusher = True and rest = "[]", OF h1 h2 h3 h4 h5 h6 h7 h8 h9] h10
  have "outcome (logsHandler_ServeHTTP demo_executor (one_file ''logs/t'' ''x'')
        ([] @ [tick_of demo_running]) True (demo_request ''5'')) = Panicked"
    by blast
  with h1 h2 h3 h4 h5 h7 h8 h9 h10 show ?thesis by blast
qed

end
